theory Spec2Isabelle
  imports Complex_Main
begin

section \<open>Python values shared by the two example programs\<close>

subsection \<open>Raised objects\<close>

text \<open>
  Every call of the client library may raise. A raised object carries what the programs
  read from it: \<open>type(error).__name__\<close> and \<open>str(error)\<close>. The handlers of both
  programs are \<open>except Exception\<close>, which catches instances of \<open>Exception\<close> only:
  \<open>Exn\<close> is such an instance, \<open>BaseExn\<close> is a raised object outside that class
  (\<open>KeyboardInterrupt\<close>, \<open>SystemExit\<close>, \<open>asyncio.CancelledError\<close>), which passes
  through every handler of the two programs.
\<close>

datatype exn =
    is_Exception: Exn (type_name: string) (message: string)
  | BaseExn (type_name: string) (message: string)

subsection \<open>\<open>str\<close> of an integer, as an f-string formats it\<close>

definition digit_char :: "nat \<Rightarrow> char" where
  "digit_char d = ''0123456789'' ! d"

fun str_nat :: "nat \<Rightarrow> string" where
  "str_nat n = (if n < 10 then [digit_char n] else str_nat (n div 10) @ [digit_char (n mod 10)])"

declare str_nat.simps [simp del]

definition str_int :: "int \<Rightarrow> string" where
  "str_int i = (if i < 0 then CHR ''-'' # str_nat (nat (- i)) else str_nat (nat i))"

subsection \<open>Data of the client library\<close>

text \<open>
  \<open>SendMessage\<close> (imported as \<open>Message\<close>) wraps a \<open>str\<close> payload. \<open>StreamDetails\<close> and
  \<open>TopicDetails\<close> are read through \<open>.name\<close> and \<open>.id\<close> only. A \<open>ReceiveMessage\<close>
  answers \<open>offset()\<close> with a non-negative integer and \<open>payload()\<close> with \<open>bytes\<close>
  (a \<open>char\<close> is one byte).
\<close>

datatype Message = Message string

record StreamDetails =
  stream_id :: int
  stream_name :: string

record TopicDetails =
  topic_id :: int
  topic_name :: string

record ReceiveMessage =
  message_offset :: nat
  message_payload :: string

datatype PollingStrategy = Next

subsection \<open>What a run does to the outside: the trace\<close>

text \<open>
  A run is observed through the requests it makes to the client, the lines it hands to
  the logger, and its calls of \<open>asyncio.sleep\<close>, in the order they happen. A request
  that the client answers by raising is followed by \<open>Raised\<close> of the raised object,
  and a poll that the client answers with a list of messages by \<open>Polled\<close> of the list.
  \<open>logger.exception\<close> writes a record of level \<open>ERROR\<close> (the traceback it appends is
  not part of the model). The sleep interval is the source's \<open>0.5\<close> seconds.
\<close>

datatype level = DEBUG | INFO | WARNING | ERROR

datatype event =
    Log level string
  | Connect
  | LoginUser string string
  | GetStream string
  | CreateStream string int
  | GetTopic string string
  | CreateTopic string int string int
  | SendMessages string string int "Message list"
  | PollMessages string string int PollingStrategy int bool
  | Polled "ReceiveMessage list"
  | Raised exn
  | Sleep rat

record 'c world =
  client :: 'c
  trace :: "event list"

definition emit :: "event \<Rightarrow> ('c, 'z) world_scheme \<Rightarrow> ('c, 'z) world_scheme" where
  "emit e w = w\<lparr>trace := trace w @ [e]\<rparr>"

definition logger :: "level \<Rightarrow> string \<Rightarrow> ('c, 'z) world_scheme \<Rightarrow> ('c, 'z) world_scheme" where
  "logger lv text = emit (Log lv text)"

definition sleep :: "rat \<Rightarrow> ('c, 'z) world_scheme \<Rightarrow> ('c, 'z) world_scheme" where
  "sleep t = emit (Sleep t)"

text \<open>
  \<open>invoke ev f w\<close> awaits one client call: the request \<open>ev\<close> enters the trace, the
  client moves to its next state, and the call's result (\<open>Inl\<close> a raised object, \<open>Inr\<close>
  the returned value) goes back to the caller.
\<close>

definition invoke ::
  "event \<Rightarrow> ('c \<Rightarrow> (exn + 'r) \<times> 'c) \<Rightarrow> ('c, 'z) world_scheme
     \<Rightarrow> (exn + 'r) \<times> ('c, 'z) world_scheme" where
  "invoke ev f w =
     (case f (client w) of
        (Inl error, c') \<Rightarrow> (Inl error, w\<lparr>client := c', trace := trace w @ [ev, Raised error]\<rparr>)
      | (Inr v, c') \<Rightarrow> (Inr v, w\<lparr>client := c', trace := trace w @ [ev]\<rparr>))"

text \<open>A poll is awaited like any other call; the list it returns enters the trace too.\<close>

definition invoke_poll ::
  "event \<Rightarrow> ('c \<Rightarrow> (exn + ReceiveMessage list) \<times> 'c) \<Rightarrow> ('c, 'z) world_scheme
     \<Rightarrow> (exn + ReceiveMessage list) \<times> ('c, 'z) world_scheme" where
  "invoke_poll ev f w =
     (case invoke ev f w of
        (Inl error, w') \<Rightarrow> (Inl error, w')
      | (Inr polled, w') \<Rightarrow> (Inr polled, emit (Polled polled) w'))"

text \<open>Module constants, the same in both programs.\<close>

definition STREAM_NAME :: string where "STREAM_NAME = ''sample-stream''"
definition TOPIC_NAME :: string where "TOPIC_NAME = ''sample-topic''"
definition STREAM_ID :: int where "STREAM_ID = 1"
definition TOPIC_ID :: int where "TOPIC_ID = 1"
definition PARTITION_ID :: int where "PARTITION_ID = 1"
definition BATCHES_LIMIT :: int where "BATCHES_LIMIT = 5"
definition interval :: rat where "interval = 1 / 2"

section \<open>The producer: getting-started/producer.py\<close>

text \<open>
  The client object of the producer. Its methods are not code of this repository, so
  they are a parameter: each takes the call's arguments and the client's state (the
  session and the broker behind it) and gives the result and the next state.
\<close>

record 'c MessengerClient =
  connect :: "'c \<Rightarrow> (exn + unit) \<times> 'c"
  login_user :: "string \<Rightarrow> string \<Rightarrow> 'c \<Rightarrow> (exn + unit) \<times> 'c"
  get_stream :: "string \<Rightarrow> 'c \<Rightarrow> (exn + StreamDetails option) \<times> 'c"
  create_stream :: "string \<Rightarrow> int \<Rightarrow> 'c \<Rightarrow> (exn + unit) \<times> 'c"
  get_topic :: "string \<Rightarrow> string \<Rightarrow> 'c \<Rightarrow> (exn + TopicDetails option) \<times> 'c"
  create_topic :: "string \<Rightarrow> int \<Rightarrow> string \<Rightarrow> int \<Rightarrow> 'c \<Rightarrow> (exn + unit) \<times> 'c"
  send_messages :: "string \<Rightarrow> string \<Rightarrow> int \<Rightarrow> Message list \<Rightarrow> 'c \<Rightarrow> (exn + unit) \<times> 'c"

subsection \<open>\<open>init_system\<close>\<close>

text \<open>
  The handler of the first \<open>try\<close> block: an \<open>Exception\<close> is logged twice
  (\<open>logger.error\<close>, \<open>logger.exception\<close>) and the block ends normally; anything else
  leaves \<open>init_system\<close>.
\<close>

definition stream_handler :: "exn \<Rightarrow> 'c world \<Rightarrow> (exn + unit) \<times> 'c world" where
  "stream_handler error w =
     (if is_Exception error
      then (Inr (), logger ERROR (message error)
                      (logger ERROR (''Error creating stream: '' @ message error) w))
      else (Inl error, w))"

text \<open>The first \<open>try\<close> block of \<open>init_system\<close> (lines 77 to 88).\<close>

definition init_stream :: "'c MessengerClient \<Rightarrow> 'c world \<Rightarrow> (exn + unit) \<times> 'c world" where
  "init_stream cl w =
     (let w1 = logger INFO (''Creating stream with name '' @ STREAM_NAME @ ''...'') w
      in case invoke (GetStream STREAM_NAME) (get_stream cl STREAM_NAME) w1 of
           (Inl error, w2) \<Rightarrow> stream_handler error w2
         | (Inr None, w2) \<Rightarrow>
             (case invoke (CreateStream STREAM_NAME STREAM_ID)
                     (create_stream cl STREAM_NAME STREAM_ID) w2 of
                (Inl error, w3) \<Rightarrow> stream_handler error w3
              | (Inr u, w3) \<Rightarrow> (Inr (), logger INFO ''Stream was created successfully.'' w3))
         | (Inr (Some stream), w2) \<Rightarrow>
             (Inr (), logger WARNING (''Stream '' @ stream_name stream
                        @ '' already exists with ID '' @ str_int (stream_id stream)) w2))"

definition topic_handler :: "exn \<Rightarrow> 'c world \<Rightarrow> (exn + unit) \<times> 'c world" where
  "topic_handler error w =
     (if is_Exception error
      then (Inr (), logger ERROR (message error)
                      (logger ERROR (''Error creating topic '' @ message error) w))
      else (Inl error, w))"

text \<open>The second \<open>try\<close> block of \<open>init_system\<close> (lines 90 to 105).\<close>

definition init_topic :: "'c MessengerClient \<Rightarrow> 'c world \<Rightarrow> (exn + unit) \<times> 'c world" where
  "init_topic cl w =
     (let w1 = logger INFO (''Creating topic '' @ TOPIC_NAME @ '' in stream '' @ STREAM_NAME) w
      in case invoke (GetTopic STREAM_NAME TOPIC_NAME) (get_topic cl STREAM_NAME TOPIC_NAME) w1 of
           (Inl error, w2) \<Rightarrow> topic_handler error w2
         | (Inr None, w2) \<Rightarrow>
             (case invoke (CreateTopic STREAM_NAME 1 TOPIC_NAME 1)
                     (create_topic cl STREAM_NAME 1 TOPIC_NAME 1) w2 of
                (Inl error, w3) \<Rightarrow> topic_handler error w3
              | (Inr u, w3) \<Rightarrow> (Inr (), logger INFO ''Topic was created successfully.'' w3))
         | (Inr (Some topic), w2) \<Rightarrow>
             (Inr (), logger WARNING (''Topic '' @ topic_name topic
                        @ '' already exists with ID '' @ str_int (topic_id topic)) w2))"

definition init_system :: "'c MessengerClient \<Rightarrow> 'c world \<Rightarrow> (exn + unit) \<times> 'c world" where
  "init_system cl w =
     (case init_stream cl w of
        (Inl error, w') \<Rightarrow> (Inl error, w')
      | (Inr u, w') \<Rightarrow> init_topic cl w')"

subsection \<open>\<open>produce_messages\<close>\<close>

text \<open>
  The local variables of \<open>produce_messages\<close> that live across iterations, on top of the
  world. The batch size (\<open>messages_per_batch\<close>, 10 in the source) and the bound
  (\<open>BATCHES_LIMIT\<close>, 5 in the source) are parameters \<open>b\<close> and \<open>limit\<close> of the model.
\<close>

record 'c producer = "'c world" +
  current_id :: int
  n_sent_batches :: int

text \<open>
  The inner \<open>for _ in range(messages_per_batch)\<close>: the first argument is the number of
  iterations left (\<open>range(b)\<close> has \<open>nat b\<close> elements, none for \<open>b \<le> 0\<close>).
\<close>

fun fill_batch :: "nat \<Rightarrow> int \<Rightarrow> Message list \<Rightarrow> int \<times> Message list" where
  "fill_batch 0 cid messages = (cid, messages)"
| "fill_batch (Suc r) cid messages =
     fill_batch r (cid + 1) (messages @ [Message (''message-'' @ str_int (cid + 1))])"

text \<open>
  The handler of the \<open>try\<close> around \<open>send_messages\<close>, followed by what comes after the
  \<open>try\<close> statement when the handler ends normally: the sleep.
\<close>

definition send_handler :: "exn \<Rightarrow> 'c producer \<Rightarrow> (exn + unit) \<times> 'c producer" where
  "send_handler error s =
     (if is_Exception error
      then (Inr (), sleep interval
                      (logger ERROR (message error)
                        (logger ERROR (''Exception type: '' @ type_name error
                           @ '', message: '' @ message error) s)))
      else (Inl error, s))"

text \<open>
  One iteration of the \<open>while\<close> loop (lines 117 to 141). \<open>Inl\<close> is an object raised out
  of the loop. The f-string of the first \<open>logger.info\<close> evaluates
  \<open>current_id // messages_per_batch\<close>, which raises \<open>ZeroDivisionError\<close> outside any
  \<open>try\<close> when the batch size is 0; Python's \<open>//\<close> on integers is floor division, as
  \<open>div\<close> on \<open>int\<close> is.
\<close>

definition produce_iteration ::
  "'c MessengerClient \<Rightarrow> int \<Rightarrow> 'c producer \<Rightarrow> (exn + unit) \<times> 'c producer" where
  "produce_iteration cl b s =
     (case fill_batch (nat b) (current_id s) [] of
        (cid, messages) \<Rightarrow>
          (let s1 = s\<lparr>current_id := cid\<rparr>
           in if b = 0
              then (Inl (Exn ''ZeroDivisionError'' ''integer division or modulo by zero''), s1)
              else
                (let s2 = logger INFO (''Attempting to send batch of '' @ str_int b
                            @ '' messages. Batch ID: '' @ str_int (cid div b)) s1
                 in case invoke (SendMessages STREAM_NAME TOPIC_NAME PARTITION_ID messages)
                           (send_messages cl STREAM_NAME TOPIC_NAME PARTITION_ID messages) s2 of
                      (Inl error, s3) \<Rightarrow> send_handler error s3
                    | (Inr u, s3) \<Rightarrow>
                        (Inr (), sleep interval
                           (logger INFO (''Successfully sent batch of '' @ str_int b
                              @ '' messages. Batch ID: '' @ str_int (cid div b))
                             (s3\<lparr>n_sent_batches := n_sent_batches s3 + 1\<rparr>))))))"

text \<open>
  The \<open>while n_sent_batches < BATCHES_LIMIT\<close> loop. Only a successful send counts, so
  the loop does not return while sends keep failing: its result is an \<open>option\<close>.
\<close>

partial_function (option) produce_while ::
  "'c MessengerClient \<Rightarrow> int \<Rightarrow> int \<Rightarrow> 'c producer \<Rightarrow> ((exn + unit) \<times> 'c producer) option" where
  "produce_while cl b limit s =
     (if n_sent_batches s < limit
      then (case produce_iteration cl b s of
              (Inl error, s') \<Rightarrow> Some (Inl error, s')
            | (Inr u, s') \<Rightarrow> produce_while cl b limit s')
      else Some (Inr (), s))"

declare produce_while.simps [code]

text \<open>The state in which the loop is entered: the first log line and the assignments.\<close>

definition producer_start :: "'c world \<Rightarrow> 'c producer" where
  "producer_start w =
     world.extend
       (logger INFO (''Messages will be sent to stream: '' @ STREAM_NAME @ '', topic: ''
          @ TOPIC_NAME @ '', partition: '' @ str_int PARTITION_ID
          @ '' with interval 500.0 ms.'') w)
       (producer.fields 0 0)"

definition produce_messages ::
  "'c MessengerClient \<Rightarrow> int \<Rightarrow> int \<Rightarrow> 'c world \<Rightarrow> ((exn + unit) \<times> 'c producer) option" where
  "produce_messages cl b limit w =
     (case produce_while cl b limit (producer_start w) of
        None \<Rightarrow> None
      | Some (Inl error, s) \<Rightarrow> Some (Inl error, s)
      | Some (Inr u, s) \<Rightarrow>
          Some (Inr (), logger INFO (''Sent '' @ str_int (n_sent_batches s)
                          @ '' batches of messages, exiting.'') s))"

text \<open>
  The loop seen from outside while it runs: \<open>produce_steps k\<close> is the state at the loop
  head after \<open>k\<close> complete iterations, and \<open>None\<close> when the loop makes fewer than \<open>k\<close>
  (its guard failed, or an iteration raised).
\<close>

fun produce_steps ::
  "nat \<Rightarrow> 'c MessengerClient \<Rightarrow> int \<Rightarrow> int \<Rightarrow> 'c producer \<Rightarrow> 'c producer option" where
  "produce_steps 0 cl b limit s = Some s"
| "produce_steps (Suc k) cl b limit s =
     (if n_sent_batches s < limit
      then (case produce_iteration cl b s of
              (Inl error, s') \<Rightarrow> None
            | (Inr u, s') \<Rightarrow> produce_steps k cl b limit s')
      else None)"

subsection \<open>\<open>main\<close>\<close>

text \<open>
  \<open>main\<close> after \<open>parse_args\<close> and the construction of the client (lines 67 to 73): no
  call is inside a \<open>try\<close>, so whatever \<open>connect\<close>, \<open>login_user\<close> or \<open>init_system\<close>
  raises ends the run.
\<close>

definition main ::
  "'c MessengerClient \<Rightarrow> int \<Rightarrow> int \<Rightarrow> 'c world \<Rightarrow> ((exn + unit) \<times> 'c world) option" where
  "main cl b limit w =
     (case invoke Connect (connect cl) (logger INFO ''Connecting to MessengerClient'' w) of
        (Inl error, w1) \<Rightarrow> Some (Inl error, w1)
      | (Inr u, w1) \<Rightarrow>
          (case invoke (LoginUser ''messenger'' ''messenger'')
                  (login_user cl ''messenger'' ''messenger'')
                  (logger INFO ''Connected. Logging in user...'' w1) of
             (Inl error, w2) \<Rightarrow> Some (Inl error, w2)
           | (Inr u, w2) \<Rightarrow>
               (case init_system cl (logger INFO ''Logged in.'' w2) of
                  (Inl error, w3) \<Rightarrow> Some (Inl error, w3)
                | (Inr u, w3) \<Rightarrow>
                    map_option (\<lambda>(r, s). (r, world.truncate s))
                      (produce_messages cl b limit w3))))"

section \<open>The consumer: basic/consumer.py\<close>

text \<open>
  The client object of the consumer, a parameter as the producer's is. The arguments of
  \<open>poll_messages\<close> are \<open>stream\<close>, \<open>topic\<close>, \<open>partition_id\<close>, \<open>polling_strategy\<close>,
  \<open>count\<close> and \<open>auto_commit\<close>.
\<close>

record 'c IggyClient =
  poll_messages ::
    "string \<Rightarrow> string \<Rightarrow> int \<Rightarrow> PollingStrategy \<Rightarrow> int \<Rightarrow> bool \<Rightarrow> 'c
       \<Rightarrow> (exn + ReceiveMessage list) \<times> 'c"

text \<open>
  The local variables of \<open>consume_messages\<close> that live across iterations. The poll size
  (\<open>messages_per_batch\<close>, 10 in the source) and the bound (\<open>BATCHES_LIMIT\<close>) are the
  parameters \<open>b\<close> and \<open>limit\<close>.
\<close>

record 'c consumer = "'c world" +
  offset :: int
  n_consumed_batches :: int

text \<open>
  \<open>handle_message\<close> (lines 94 to 98). \<open>bytes.decode("utf-8")\<close> is Python's own and is
  taken as the parameter \<open>decode\<close>: it gives the text, or raises \<open>UnicodeDecodeError\<close>
  on bytes that are not UTF-8.
\<close>

definition handle_message ::
  "(string \<Rightarrow> exn + string) \<Rightarrow> ReceiveMessage \<Rightarrow> 'c consumer \<Rightarrow> (exn + unit) \<times> 'c consumer" where
  "handle_message decode msg s =
     (case decode (message_payload msg) of
        Inl error \<Rightarrow> (Inl error, s)
      | Inr payload \<Rightarrow>
          (Inr (), logger INFO (''Handling message at offset: '' @ str_nat (message_offset msg)
                     @ '' with payload: '' @ payload @ ''...'') s))"

text \<open>The \<open>for message in polled_messages\<close> loop (lines 83 and 84).\<close>

fun handle_messages ::
  "(string \<Rightarrow> exn + string) \<Rightarrow> ReceiveMessage list \<Rightarrow> 'c consumer \<Rightarrow> (exn + unit) \<times> 'c consumer" where
  "handle_messages decode [] s = (Inr (), s)"
| "handle_messages decode (msg # rest) s =
     (case handle_message decode msg s of
        (Inl error, s') \<Rightarrow> (Inl error, s')
      | (Inr u, s') \<Rightarrow> handle_messages decode rest s')"

text \<open>
  How one iteration of the \<open>while\<close> loop ends: at the loop head again (the end of the
  body, or \<open>continue\<close>), by \<open>break\<close>, or with an object raised out of the loop.
\<close>

datatype flow = Continue | Break | Raise exn

text \<open>The \<open>except Exception\<close> clause (lines 87 to 89).\<close>

definition consume_handler :: "exn \<Rightarrow> 'c consumer \<Rightarrow> flow \<times> 'c consumer" where
  "consume_handler error s =
     (if is_Exception error
      then (Break, logger ERROR (''Exception occurred while consuming messages: ''
                     @ message error) s)
      else (Raise error, s))"

text \<open>
  One iteration of the \<open>while\<close> loop (lines 67 to 89). \<open>not polled_messages\<close> is true
  of the empty list.
\<close>

definition consume_iteration ::
  "(string \<Rightarrow> exn + string) \<Rightarrow> 'c IggyClient \<Rightarrow> int \<Rightarrow> 'c consumer \<Rightarrow> flow \<times> 'c consumer" where
  "consume_iteration decode cl b s =
     (let s1 = logger DEBUG ''Polling for messages...'' s
      in case invoke_poll (PollMessages STREAM_NAME TOPIC_NAME PARTITION_ID Next b True)
                (poll_messages cl STREAM_NAME TOPIC_NAME PARTITION_ID Next b True) s1 of
           (Inl error, s2) \<Rightarrow> consume_handler error s2
         | (Inr polled_messages, s2) \<Rightarrow>
             if polled_messages = []
             then (Continue, sleep interval (logger INFO ''No messages found in current poll'' s2))
             else
               (case handle_messages decode polled_messages
                       (s2\<lparr>offset := offset s2 + int (length polled_messages)\<rparr>) of
                  (Inl error, s3) \<Rightarrow> consume_handler error s3
                | (Inr u, s3) \<Rightarrow>
                    (Continue, sleep interval
                       (s3\<lparr>n_consumed_batches := n_consumed_batches s3 + 1\<rparr>))))"

text \<open>
  The \<open>while n_consumed_batches < BATCHES_LIMIT\<close> loop. Empty polls are not counted, so
  the loop does not return while the partition stays empty.
\<close>

partial_function (option) consume_while ::
  "(string \<Rightarrow> exn + string) \<Rightarrow> 'c IggyClient \<Rightarrow> int \<Rightarrow> int \<Rightarrow> 'c consumer
     \<Rightarrow> ((exn + unit) \<times> 'c consumer) option" where
  "consume_while decode cl b limit s =
     (if n_consumed_batches s < limit
      then (case consume_iteration decode cl b s of
              (Continue, s') \<Rightarrow> consume_while decode cl b limit s'
            | (Break, s') \<Rightarrow> Some (Inr (), s')
            | (Raise error, s') \<Rightarrow> Some (Inl error, s'))
      else Some (Inr (), s))"

declare consume_while.simps [code]

definition consumer_start :: "'c world \<Rightarrow> 'c consumer" where
  "consumer_start w =
     world.extend
       (logger INFO (''Messages will be consumed from stream: '' @ STREAM_NAME @ '', topic: ''
          @ TOPIC_NAME @ '', partition: '' @ str_int PARTITION_ID
          @ '' with interval 500.0 ms.'') w)
       (consumer.fields 0 0)"

definition consume_messages ::
  "(string \<Rightarrow> exn + string) \<Rightarrow> 'c IggyClient \<Rightarrow> int \<Rightarrow> int \<Rightarrow> 'c world
     \<Rightarrow> ((exn + unit) \<times> 'c consumer) option" where
  "consume_messages decode cl b limit w =
     (case consume_while decode cl b limit (consumer_start w) of
        None \<Rightarrow> None
      | Some (Inl error, s) \<Rightarrow> Some (Inl error, s)
      | Some (Inr u, s) \<Rightarrow>
          Some (Inr (), logger INFO (''Consumed '' @ str_int (n_consumed_batches s)
                          @ '' batches of messages, exiting.'') s))"

text \<open>
  The consumer's loop seen from outside: the state at the loop head after \<open>k\<close>
  iterations that came back to it, \<open>None\<close> when the loop makes fewer.
\<close>

fun consume_steps ::
  "nat \<Rightarrow> (string \<Rightarrow> exn + string) \<Rightarrow> 'c IggyClient \<Rightarrow> int \<Rightarrow> int \<Rightarrow> 'c consumer
     \<Rightarrow> 'c consumer option" where
  "consume_steps 0 decode cl b limit s = Some s"
| "consume_steps (Suc k) decode cl b limit s =
     (if n_consumed_batches s < limit
      then (case consume_iteration decode cl b s of
              (Continue, s') \<Rightarrow> consume_steps k decode cl b limit s'
            | (Break, s') \<Rightarrow> None
            | (Raise error, s') \<Rightarrow> None)
      else None)"

section \<open>Reading a trace\<close>

text \<open>What a run that started in \<open>w\<close> and is now in \<open>w'\<close> has added to the trace.\<close>

definition since :: "('c, 'y) world_scheme \<Rightarrow> ('c, 'z) world_scheme \<Rightarrow> event list" where
  "since w w' = drop (length (trace w)) (trace w')"

text \<open>The message lists of the send requests of a trace, one per request, in order.\<close>

fun sent_batches :: "event list \<Rightarrow> Message list list" where
  "sent_batches [] = []"
| "sent_batches (SendMessages st tp p ms # es) = ms # sent_batches es"
| "sent_batches (e # es) = sent_batches es"

text \<open>The objects that client calls raised, in order.\<close>

fun raised :: "event list \<Rightarrow> exn list" where
  "raised [] = []"
| "raised (Raised error # es) = error # raised es"
| "raised (e # es) = raised es"

text \<open>The number of polls that returned at least one message.\<close>

fun nonempty_polls :: "event list \<Rightarrow> nat" where
  "nonempty_polls [] = 0"
| "nonempty_polls (Polled msgs # es) = (if msgs = [] then 0 else 1) + nonempty_polls es"
| "nonempty_polls (e # es) = nonempty_polls es"

text \<open>The lines logged at a level, in order.\<close>

fun lines :: "level \<Rightarrow> event list \<Rightarrow> string list" where
  "lines lv [] = []"
| "lines lv (Log lv' line # es) = (if lv' = lv then line # lines lv es else lines lv es)"
| "lines lv (e # es) = lines lv es"

text \<open>The requests that create a stream or a topic.\<close>

fun creations :: "event list \<Rightarrow> event list" where
  "creations [] = []"
| "creations (CreateStream name i # es) = CreateStream name i # creations es"
| "creations (CreateTopic st pc name rf # es) = CreateTopic st pc name rf # creations es"
| "creations (e # es) = creations es"

text \<open>
  The batch that the specification expects as the \<open>k\<close>-th of a run (\<open>k\<close> from 1) with
  batch size \<open>b\<close>: the payloads \<open>message-i\<close> for \<open>i\<close> from \<open>(k - 1) * b + 1\<close> to
  \<open>k * b\<close>, in this order.
\<close>

definition payload_of :: "int \<Rightarrow> Message" where
  "payload_of i = Message (''message-'' @ str_int i)"

definition expected_batch :: "int \<Rightarrow> int \<Rightarrow> Message list" where
  "expected_batch b k = map payload_of [(k - 1) * b + 1 .. k * b]"

text \<open>
  Pacing, read off a trace. A send or a poll is a request to the broker;
  \<open>pacing pending tr\<close> walks through \<open>tr\<close> remembering whether a request has been made
  since the last sleep of the configured interval. It is \<open>None\<close> when two requests follow
  each other with no such sleep between them, and otherwise \<open>Some\<close> of the flag at the end.
\<close>

fun is_request :: "event \<Rightarrow> bool" where
  "is_request (SendMessages st tp p ms) = True"
| "is_request (PollMessages st tp p ps n ac) = True"
| "is_request e = False"

fun pacing :: "bool \<Rightarrow> event list \<Rightarrow> bool option" where
  "pacing pending [] = Some pending"
| "pacing pending (e # es) =
     (if is_request e then (if pending then None else pacing True es)
      else if e = Sleep interval then pacing False es
      else pacing pending es)"

text \<open>The line that \<open>handle_message\<close> logs for a message at \<open>off\<close> with decoded text \<open>payload\<close>.\<close>

definition handling_line :: "nat \<Rightarrow> string \<Rightarrow> event" where
  "handling_line off payload =
     Log INFO (''Handling message at offset: '' @ str_nat off @ '' with payload: ''
       @ payload @ ''...'')"

text \<open>
  Whether the payload of a polled message decodes, and the line that \<open>handle_message\<close>
  logs for it when it does.
\<close>

definition decodes :: "(string \<Rightarrow> exn + string) \<Rightarrow> ReceiveMessage \<Rightarrow> bool" where
  "decodes decode msg = (\<not> isl (decode (message_payload msg)))"

definition handling_of :: "(string \<Rightarrow> exn + string) \<Rightarrow> ReceiveMessage \<Rightarrow> event" where
  "handling_of decode msg =
     handling_line (message_offset msg) (projr (decode (message_payload msg)))"

text \<open>
  What the decoder raises at the first message of a list whose payload does not decode,
  when there is one.
\<close>

definition decode_error :: "(string \<Rightarrow> exn + string) \<Rightarrow> ReceiveMessage list \<Rightarrow> exn" where
  "decode_error decode msgs =
     projl (decode (message_payload (hd (dropWhile (decodes decode) msgs))))"

text \<open>
  The text of a message to send, and ASCII byte strings: on these the UTF-8 encoding of a
  text is the text, byte for byte.
\<close>

fun message_text :: "Message \<Rightarrow> string" where
  "message_text (Message payload) = payload"

definition is_ascii :: "string \<Rightarrow> bool" where
  "is_ascii bytes = list_all (\<lambda>c. (of_char c :: nat) < 128) bytes"

section \<open>Clients to run the programs on\<close>

text \<open>
  An in-memory broker behind the producer's client: streams and topics in the order of
  their creation, one partition, and the number of send calls received so far. The
  client is built from a schedule of faults: \<open>send_fault n\<close> is what the send call
  number \<open>n\<close> (from 0) raises, if anything, and \<open>lookup_fault\<close> is what every
  \<open>get_stream\<close> and \<open>get_topic\<close> raises, if anything.
\<close>

record broker =
  streams :: "StreamDetails list"
  topics :: "(string \<times> TopicDetails) list"
  partition :: "Message list"
  sends :: nat

definition memory_client :: "(nat \<Rightarrow> exn option) \<Rightarrow> exn option \<Rightarrow> broker MessengerClient" where
  "memory_client send_fault lookup_fault =
     \<lparr>connect = (\<lambda>c. (Inr (), c)),
      login_user = (\<lambda>username password c. (Inr (), c)),
      get_stream = (\<lambda>name c.
        case lookup_fault of
          Some error \<Rightarrow> (Inl error, c)
        | None \<Rightarrow> (Inr (find (\<lambda>sd. stream_name sd = name) (streams c)), c)),
      create_stream = (\<lambda>name i c.
        (Inr (), c\<lparr>streams := streams c @ [\<lparr>stream_id = i, stream_name = name\<rparr>]\<rparr>)),
      get_topic = (\<lambda>stream name c.
        case lookup_fault of
          Some error \<Rightarrow> (Inl error, c)
        | None \<Rightarrow>
            (Inr (map_option snd
                    (find (\<lambda>(st, td). st = stream \<and> topic_name td = name) (topics c))), c)),
      create_topic = (\<lambda>stream partitions_count name replication_factor c.
        (Inr (), c\<lparr>topics := topics c
           @ [(stream, \<lparr>topic_id = 1 + int (length (topics c)), topic_name = name\<rparr>)]\<rparr>)),
      send_messages = (\<lambda>stream topic partitioning messages c.
        case send_fault (sends c) of
          Some error \<Rightarrow> (Inl error, c\<lparr>sends := Suc (sends c)\<rparr>)
        | None \<Rightarrow>
            (Inr (), c\<lparr>partition := partition c @ messages, sends := Suc (sends c)\<rparr>))\<rparr>"

definition empty_broker :: "broker world" where
  "empty_broker = \<lparr>client = \<lparr>streams = [], topics = [], partition = [], sends = 0\<rparr>, trace = []\<rparr>"

definition no_fault :: "nat \<Rightarrow> exn option" where
  "no_fault n = None"

definition first_send_fails :: "nat \<Rightarrow> exn option" where
  "first_send_fails n = (if n = 0 then Some (Exn ''ConnectionError'' ''connection reset'') else None)"

definition every_send_fails :: "nat \<Rightarrow> exn option" where
  "every_send_fails n = Some (Exn ''ConnectionError'' ''connection reset'')"

text \<open>
  The consumer's client over a script: the state is the list of the answers that the
  next polls get, and a poll past the end of the script finds nothing.
\<close>

definition scripted_client :: "(exn + ReceiveMessage list) list IggyClient" where
  "scripted_client =
     \<lparr>poll_messages = (\<lambda>stream topic partition_id polling_strategy count auto_commit script.
        case script of
          [] \<Rightarrow> (Inr [], [])
        | answer # rest \<Rightarrow> (answer, rest))\<rparr>"

definition script :: "(exn + ReceiveMessage list) list \<Rightarrow> (exn + ReceiveMessage list) list world" where
  "script answers = \<lparr>client = answers, trace = []\<rparr>"

text \<open>
  A decoder to run the consumer with: Python's UTF-8 decoder on ASCII payloads, whose
  text is the bytes themselves. A byte from \<open>0x80\<close> on is refused (the payloads that
  the producer builds are ASCII).
\<close>

definition decode_ascii :: "string \<Rightarrow> exn + string" where
  "decode_ascii bytes =
     (if is_ascii bytes
      then Inr bytes
      else Inl (Exn ''UnicodeDecodeError'' ''invalid start byte''))"

text \<open>
  The consumer's client over the in-memory broker: its state is the cursor and the
  broker. A poll returns up to \<open>count\<close> messages of the partition from the cursor on,
  each with its position as offset and the bytes of its text as payload, and with
  auto-commit moves the cursor past them.
\<close>

definition memory_poller :: "(nat \<times> broker) IggyClient" where
  "memory_poller =
     \<lparr>poll_messages = (\<lambda>stream topic partition_id polling_strategy count auto_commit (cursor, c).
        let found = take (nat count) (drop cursor (partition c));
            polled = map (\<lambda>(i, m). \<lparr>message_offset = cursor + i, message_payload = message_text m\<rparr>)
                       (zip [0..<length found] found)
        in (Inr polled, (if auto_commit then cursor + length found else cursor, c)))\<rparr>"

section \<open>Facts about the model\<close>

text \<open>The equations by which a run on a concrete client is evaluated.\<close>

lemmas step_defs = invoke_def invoke_poll_def logger_def emit_def sleep_def

lemmas config_defs = STREAM_NAME_def TOPIC_NAME_def STREAM_ID_def PARTITION_ID_def interval_def

lemmas str_defs = str_int_def str_nat.simps digit_char_def

lemmas producer_defs = eval_nat_numeral produce_messages_def producer_start_def produce_while.simps
  produce_iteration_def send_handler_def world.defs producer.defs

lemmas double_defs = memory_client_def empty_broker_def no_fault_def first_send_fails_def
  every_send_fails_def

subsection \<open>Decimal strings\<close>

text \<open>\<open>str\<close> gives different integers different strings.\<close>

lemma digit_char_inj: "d < 10 \<Longrightarrow> d' < 10 \<Longrightarrow> digit_char d = digit_char d' \<Longrightarrow> d = d'"
proof -
  assume d: "d < 10" and d': "d' < 10" and eq: "digit_char d = digit_char d'"
  have dist: "distinct ''0123456789''" by simp
  have len: "length ''0123456789'' = 10" by simp
  from eq have "''0123456789'' ! d = ''0123456789'' ! d'" by (simp only: digit_char_def)
  with dist d d' len show "d = d'" by (simp only: nth_eq_iff_index_eq)
qed

lemma str_nat_small: "n < 10 \<Longrightarrow> str_nat n = [digit_char n]"
  by (subst str_nat.simps) simp

lemma str_nat_large: "\<not> n < 10 \<Longrightarrow> str_nat n = str_nat (n div 10) @ [digit_char (n mod 10)]"
  by (subst str_nat.simps) simp

lemma str_nat_nonempty: "str_nat n \<noteq> []"
  by (cases "n < 10") (simp_all add: str_nat_small str_nat_large)

lemma str_nat_inj: "str_nat m = str_nat n \<Longrightarrow> m = n"
proof (induction m arbitrary: n rule: str_nat.induct)
  case (1 m)
  show ?case
  proof (cases "m < 10")
    case msmall: True
    show ?thesis
    proof (cases "n < 10")
      case True
      with msmall "1.prems" show ?thesis
        by (simp add: str_nat_small digit_char_inj)
    next
      case False
      with msmall "1.prems" show ?thesis
        using str_nat_nonempty [of "n div 10"]
        by (simp add: str_nat_small str_nat_large)
    qed
  next
    case mlarge: False
    show ?thesis
    proof (cases "n < 10")
      case True
      with mlarge "1.prems" show ?thesis
        using str_nat_nonempty [of "m div 10"]
        by (simp add: str_nat_small str_nat_large)
    next
      case False
      with mlarge "1.prems" have frontd: "str_nat (m div 10) = str_nat (n div 10)"
        and lastd: "digit_char (m mod 10) = digit_char (n mod 10)"
        by (simp_all add: str_nat_large)
      from mlarge frontd have "m div 10 = n div 10" by (rule "1.IH")
      moreover from lastd have "m mod 10 = n mod 10" by (simp add: digit_char_inj)
      ultimately show ?thesis by (metis div_mult_mod_eq)
    qed
  qed
qed

lemma payload_of_inj: "0 \<le> i \<Longrightarrow> 0 \<le> j \<Longrightarrow> payload_of i = payload_of j \<Longrightarrow> i = j"
proof -
  assume i: "0 \<le> i" and j: "0 \<le> j" and eq: "payload_of i = payload_of j"
  from eq i j have "str_nat (nat i) = str_nat (nat j)"
    by (simp add: payload_of_def str_int_def)
  then have "nat i = nat j" by (rule str_nat_inj)
  with i j show "i = j" by simp
qed

subsection \<open>The inner loop\<close>

lemma fill_batch_eq:
  "fill_batch r cid ms = (cid + int r, ms @ map payload_of [cid + 1 .. cid + int r])"
proof (induction r arbitrary: cid ms)
  case 0
  show ?case by simp
next
  case (Suc r)
  have "[cid + 1 .. cid + int (Suc r)] = (cid + 1) # [cid + 1 + 1 .. cid + 1 + int r]"
    by (subst upto_rec1) (simp_all add: add.commute add.left_commute)
  then show ?case by (simp add: Suc.IH payload_of_def)
qed

subsection \<open>Traces and one iteration of the producer\<close>

lemma sent_batches_append: "sent_batches (xs @ ys) = sent_batches xs @ sent_batches ys"
  by (induction xs rule: sent_batches.induct) simp_all

lemma raised_append: "raised (xs @ ys) = raised xs @ raised ys"
  by (induction xs rule: raised.induct) simp_all

lemma creations_append: "creations (xs @ ys) = creations xs @ creations ys"
  by (induction xs rule: creations.induct) simp_all

lemma pacing_append:
  "pacing p (xs @ ys) = (case pacing p xs of None \<Rightarrow> None | Some q \<Rightarrow> pacing q ys)"
  by (induction xs arbitrary: p) simp_all

text \<open>One iteration of the producer, by what the send call answers.\<close>

lemma produce_iteration_sent:
  assumes "0 < b"
    and "send_messages cl STREAM_NAME TOPIC_NAME PARTITION_ID
           (map payload_of [current_id s + 1 .. current_id s + b]) (client s) = (Inr u, c')"
  shows "produce_iteration cl b s =
    (Inr (), s\<lparr>client := c',
       trace := trace s @
         [Log INFO (''Attempting to send batch of '' @ str_int b @ '' messages. Batch ID: ''
            @ str_int ((current_id s + b) div b)),
          SendMessages STREAM_NAME TOPIC_NAME PARTITION_ID
            (map payload_of [current_id s + 1 .. current_id s + b]),
          Log INFO (''Successfully sent batch of '' @ str_int b @ '' messages. Batch ID: ''
            @ str_int ((current_id s + b) div b)),
          Sleep interval],
       current_id := current_id s + b,
       n_sent_batches := n_sent_batches s + 1\<rparr>)"
  using assms by (simp add: produce_iteration_def fill_batch_eq step_defs)

lemma produce_iteration_failed:
  assumes "0 < b"
    and "send_messages cl STREAM_NAME TOPIC_NAME PARTITION_ID
           (map payload_of [current_id s + 1 .. current_id s + b]) (client s) = (Inl error, c')"
    and "is_Exception error"
  shows "produce_iteration cl b s =
    (Inr (), s\<lparr>client := c',
       trace := trace s @
         [Log INFO (''Attempting to send batch of '' @ str_int b @ '' messages. Batch ID: ''
            @ str_int ((current_id s + b) div b)),
          SendMessages STREAM_NAME TOPIC_NAME PARTITION_ID
            (map payload_of [current_id s + 1 .. current_id s + b]),
          Raised error,
          Log ERROR (''Exception type: '' @ type_name error @ '', message: '' @ message error),
          Log ERROR (message error),
          Sleep interval],
       current_id := current_id s + b\<rparr>)"
  using assms by (simp add: produce_iteration_def fill_batch_eq step_defs send_handler_def)

lemma produce_iteration_interrupted:
  assumes "0 < b"
    and "send_messages cl STREAM_NAME TOPIC_NAME PARTITION_ID
           (map payload_of [current_id s + 1 .. current_id s + b]) (client s) = (Inl error, c')"
    and "\<not> is_Exception error"
  shows "produce_iteration cl b s =
    (Inl error, s\<lparr>client := c',
       trace := trace s @
         [Log INFO (''Attempting to send batch of '' @ str_int b @ '' messages. Batch ID: ''
            @ str_int ((current_id s + b) div b)),
          SendMessages STREAM_NAME TOPIC_NAME PARTITION_ID
            (map payload_of [current_id s + 1 .. current_id s + b]),
          Raised error],
       current_id := current_id s + b\<rparr>)"
  using assms by (simp add: produce_iteration_def fill_batch_eq step_defs send_handler_def)

text \<open>What every iteration does, whatever the send call answers.\<close>

lemma produce_iteration_any:
  assumes b: "0 < b" and it: "produce_iteration cl b s = (r, s')"
  shows "current_id s' = current_id s + b
    \<and> sent_batches (trace s') = sent_batches (trace s) @ [map payload_of [current_id s + 1 .. current_id s + b]]
    \<and> n_sent_batches s' + int (length (raised (trace s')))
        = n_sent_batches s + int (length (raised (trace s))) + 1
    \<and> n_sent_batches s \<le> n_sent_batches s' \<and> n_sent_batches s' \<le> n_sent_batches s + 1
    \<and> (r = Inr () \<longrightarrow> (\<forall>p. pacing p (trace s) = Some False \<longrightarrow> pacing p (trace s') = Some False))
    \<and> (\<forall>p. pacing p (trace s) = Some False \<longrightarrow> pacing p (trace s') \<noteq> None)"
proof -
  obtain res c' where send: "send_messages cl STREAM_NAME TOPIC_NAME PARTITION_ID
           (map payload_of [current_id s + 1 .. current_id s + b]) (client s) = (res, c')"
    by (cases "send_messages cl STREAM_NAME TOPIC_NAME PARTITION_ID
           (map payload_of [current_id s + 1 .. current_id s + b]) (client s)")
  show ?thesis
  proof (cases res)
    case (Inr u)
    with send have "send_messages cl STREAM_NAME TOPIC_NAME PARTITION_ID
           (map payload_of [current_id s + 1 .. current_id s + b]) (client s) = (Inr u, c')" by simp
    from produce_iteration_sent [OF b this] it show ?thesis
      by (auto simp: sent_batches_append raised_append pacing_append)
  next
    case (Inl error)
    with send have f: "send_messages cl STREAM_NAME TOPIC_NAME PARTITION_ID
           (map payload_of [current_id s + 1 .. current_id s + b]) (client s) = (Inl error, c')" by simp
    show ?thesis
    proof (cases "is_Exception error")
      case True
      from produce_iteration_failed [OF b f True] it show ?thesis
        by (auto simp: sent_batches_append raised_append pacing_append)
    next
      case False
      from produce_iteration_interrupted [OF b f False] it show ?thesis
        by (auto simp: sent_batches_append raised_append pacing_append)
    qed
  qed
qed

subsection \<open>The producer's loop\<close>

lemma upto_from_1: "[1 .. int k] = map (\<lambda>j. int j + 1) [0..<k]"
proof (induction k)
  case 0
  show ?case by simp
next
  case (Suc k)
  have "[1 .. int (Suc k)] = [1 .. int k] @ [int k + 1]"
    by (subst upto_rec2) (simp_all add: add.commute)
  with Suc show ?case by simp
qed

lemma expected_batch_eq:
  "expected_batch b (int j + 1) = map payload_of [b * int j + 1 .. b * int j + b]"
  by (simp add: expected_batch_def algebra_simps)

lemma expected_batches_eq:
  "map (expected_batch b) [1 .. int k]
     = map (\<lambda>j. map payload_of [b * int j + 1 .. b * int j + b]) [0..<k]"
  by (simp add: upto_from_1 o_def expected_batch_eq)

text \<open>The loop head after \<open>k\<close> iterations.\<close>

lemma produce_steps_state:
  assumes b: "0 < b"
  shows "produce_steps k cl b limit s = Some s' \<Longrightarrow>
    current_id s' = current_id s + b * int k
    \<and> sent_batches (trace s') = sent_batches (trace s)
         @ map (\<lambda>j. map payload_of [current_id s + b * int j + 1 .. current_id s + b * int j + b]) [0..<k]
    \<and> n_sent_batches s' + int (length (raised (trace s')))
         = n_sent_batches s + int (length (raised (trace s))) + int k
    \<and> n_sent_batches s \<le> n_sent_batches s'
    \<and> n_sent_batches s' \<le> max limit (n_sent_batches s)
    \<and> (\<forall>p. pacing p (trace s) = Some False \<longrightarrow> pacing p (trace s') = Some False)"
proof (induction k arbitrary: s)
  case 0
  then show ?case by simp
next
  case (Suc k)
  from Suc.prems obtain s1 where guard: "n_sent_batches s < limit"
    and it: "produce_iteration cl b s = (Inr (), s1)"
    and rest: "produce_steps k cl b limit s1 = Some s'"
    by (auto split: if_splits prod.splits sum.splits)
  note one = produce_iteration_any [OF b it]
  note more = Suc.IH [OF rest]
  have shift: "map (\<lambda>j. map payload_of [current_id s + b * int j + 1 .. current_id s + b * int j + b]) [0..<Suc k]
      = map payload_of [current_id s + 1 .. current_id s + b]
        # map (\<lambda>j. map payload_of [current_id s1 + b * int j + 1 .. current_id s1 + b * int j + b]) [0..<k]"
    using one by (simp add: map_upt_Suc algebra_simps del: upt_Suc)
  have "current_id s' = current_id s + b * int (Suc k)"
    using one more by (simp add: algebra_simps)
  moreover have "sent_batches (trace s') = sent_batches (trace s)
         @ map (\<lambda>j. map payload_of [current_id s + b * int j + 1 .. current_id s + b * int j + b]) [0..<Suc k]"
    using one more by (simp only: shift) simp
  moreover have "n_sent_batches s' + int (length (raised (trace s')))
         = n_sent_batches s + int (length (raised (trace s))) + int (Suc k)"
    using one more by simp
  moreover have "n_sent_batches s \<le> n_sent_batches s'"
    using one more by simp
  moreover have "n_sent_batches s' \<le> max limit (n_sent_batches s)"
    using one more guard by (simp add: max_def split: if_splits)
  moreover have "\<forall>p. pacing p (trace s) = Some False \<longrightarrow> pacing p (trace s') = Some False"
    using one more by simp
  ultimately show ?case by blast
qed

text \<open>A state at the loop head of a run is where the rest of the run starts.\<close>

lemma produce_while_steps:
  "produce_steps k cl b limit s = Some s' \<Longrightarrow>
     produce_while cl b limit s = produce_while cl b limit s'"
proof (induction k arbitrary: s)
  case 0
  then show ?case by simp
next
  case (Suc k)
  from Suc.prems obtain s1 where guard: "n_sent_batches s < limit"
    and it: "produce_iteration cl b s = (Inr (), s1)"
    and rest: "produce_steps k cl b limit s1 = Some s'"
    by (auto split: if_splits prod.splits sum.splits)
  from guard it have "produce_while cl b limit s = produce_while cl b limit s1"
    by (subst produce_while.simps) simp
  with Suc.IH [OF rest] show ?case by simp
qed

text \<open>A loop that returns has made some number of iterations.\<close>

lemma produce_while_returns:
  assumes "produce_while cl b limit s = Some (r, s')"
  shows "\<exists>k s''. produce_steps k cl b limit s = Some s''
    \<and> ((r = Inr () \<and> s' = s'' \<and> \<not> n_sent_batches s'' < limit)
       \<or> (\<exists>error. r = Inl error \<and> n_sent_batches s'' < limit
            \<and> produce_iteration cl b s'' = (Inl error, s')))"
proof (rule produce_while.raw_induct [where P = "\<lambda>cl b limit s res.
     \<exists>k s''. produce_steps k cl b limit s = Some s''
      \<and> ((fst res = Inr () \<and> snd res = s'' \<and> \<not> n_sent_batches s'' < limit)
       \<or> (\<exists>error. fst res = Inl error \<and> n_sent_batches s'' < limit
            \<and> produce_iteration cl b s'' = (Inl error, snd res)))", OF _ assms, simplified])
  fix f :: "'a MessengerClient \<Rightarrow> int \<Rightarrow> int \<Rightarrow> 'a producer \<Rightarrow> ((exn + unit) \<times> 'a producer) option"
    and cl b limit s res
  assume IH: "\<And>cl b limit s res. f cl b limit s = Some res \<Longrightarrow>
     \<exists>k s''. produce_steps k cl b limit s = Some s''
      \<and> ((fst res = Inr () \<and> snd res = s'' \<and> \<not> n_sent_batches s'' < limit)
       \<or> (\<exists>error. fst res = Inl error \<and> n_sent_batches s'' < limit
            \<and> produce_iteration cl b s'' = (Inl error, snd res)))"
    and eq: "(if n_sent_batches s < limit
      then (case produce_iteration cl b s of
              (Inl error, s') \<Rightarrow> Some (Inl error, s')
            | (Inr u, s') \<Rightarrow> f cl b limit s')
      else Some (Inr (), s)) = Some res"
  show "\<exists>k s''. produce_steps k cl b limit s = Some s''
      \<and> ((fst res = Inr () \<and> snd res = s'' \<and> \<not> n_sent_batches s'' < limit)
       \<or> (\<exists>error. fst res = Inl error \<and> n_sent_batches s'' < limit
            \<and> produce_iteration cl b s'' = (Inl error, snd res)))"
  proof (cases "n_sent_batches s < limit")
    case False
    with eq have "res = (Inr (), s)" by simp
    with False have "produce_steps 0 cl b limit s = Some s
      \<and> (fst res = Inr () \<and> snd res = s \<and> \<not> n_sent_batches s < limit)" by simp
    then show ?thesis by blast
  next
    case True
    obtain r1 s1 where it: "produce_iteration cl b s = (r1, s1)"
      by (cases "produce_iteration cl b s")
    show ?thesis
    proof (cases r1)
      case (Inl error)
      with eq True it have "res = (Inl error, s1)" by simp
      with True it Inl have "produce_steps 0 cl b limit s = Some s
        \<and> (\<exists>error. fst res = Inl error \<and> n_sent_batches s < limit
            \<and> produce_iteration cl b s = (Inl error, snd res))" by simp
      then show ?thesis by blast
    next
      case (Inr u)
      with eq True it have "f cl b limit s1 = Some res" by simp
      from IH [OF this] obtain k s'' where
        k: "produce_steps k cl b limit s1 = Some s''"
        and fin: "(fst res = Inr () \<and> snd res = s'' \<and> \<not> n_sent_batches s'' < limit)
       \<or> (\<exists>error. fst res = Inl error \<and> n_sent_batches s'' < limit
            \<and> produce_iteration cl b s'' = (Inl error, snd res))" by blast
      from k True it Inr have "produce_steps (Suc k) cl b limit s = Some s''" by simp
      with fin show ?thesis by blast
    qed
  qed
qed

lemma concat_expected_batches_nat:
  assumes "0 < b"
  shows "concat (map (expected_batch b) [1 .. int k]) = map payload_of [1 .. int k * b]"
proof (induction k)
  case 0
  show ?case by simp
next
  case (Suc k)
  have last_batch: "[1 .. int k + 1] = [1 .. int k] @ [int k + 1]"
    by (subst upto_rec2) simp_all
  have "0 \<le> int k * b" using assms by simp
  then have "[1 .. (int k + 1) * b] = [1 .. int k * b + 1 - 1] @ [int k * b + 1 .. (int k + 1) * b]"
    using assms by (intro upto_split1) (simp_all add: algebra_simps)
  then have "[1 .. (int k + 1) * b] = [1 .. int k * b] @ [int k * b + 1 .. (int k + 1) * b]"
    by simp
  with Suc last_batch show ?case
    by (simp add: expected_batch_def algebra_simps)
qed

lemma concat_expected_batches:
  assumes "0 < b"
  shows "concat (map (expected_batch b) [1 .. n]) = map payload_of [1 .. n * b]"
proof (cases "0 \<le> n")
  case True
  then have "n = int (nat n)" by simp
  then show ?thesis using concat_expected_batches_nat [OF assms, of "nat n"] by simp
next
  case False
  then have "n * b < 0" using assms by (intro mult_neg_pos) simp_all
  then have "n * b < 1" by simp
  with False show ?thesis by simp
qed

lemma distinct_payloads: "distinct (map payload_of [1 .. m])"
  by (auto simp: distinct_map inj_on_def intro: payload_of_inj)

lemma length_expected_batch: "length (expected_batch b k) = nat b"
  by (simp add: expected_batch_def algebra_simps)

text \<open>When no send raises, the loop returns after \<open>limit\<close> iterations.\<close>

lemma produce_steps_all_sent:
  assumes b: "0 < b"
    and ok: "\<forall>ms c. fst (send_messages cl STREAM_NAME TOPIC_NAME PARTITION_ID ms c) = Inr ()"
  shows "m = nat (limit - n_sent_batches s) \<Longrightarrow>
    \<exists>s'. produce_steps m cl b limit s = Some s'
      \<and> \<not> n_sent_batches s' < limit \<and> raised (trace s') = raised (trace s)"
proof (induction m arbitrary: s)
  case 0
  then show ?case by simp
next
  case (Suc m)
  then have guard: "n_sent_batches s < limit" by simp
  obtain res c' where send: "send_messages cl STREAM_NAME TOPIC_NAME PARTITION_ID
      (map payload_of [current_id s + 1 .. current_id s + b]) (client s) = (res, c')"
    by (cases "send_messages cl STREAM_NAME TOPIC_NAME PARTITION_ID
      (map payload_of [current_id s + 1 .. current_id s + b]) (client s)")
  with ok have "res = Inr ()" by (metis fst_conv)
  with send have it: "produce_iteration cl b s = (Inr (), s\<lparr>client := c',
       trace := trace s @
         [Log INFO (''Attempting to send batch of '' @ str_int b @ '' messages. Batch ID: ''
            @ str_int ((current_id s + b) div b)),
          SendMessages STREAM_NAME TOPIC_NAME PARTITION_ID
            (map payload_of [current_id s + 1 .. current_id s + b]),
          Log INFO (''Successfully sent batch of '' @ str_int b @ '' messages. Batch ID: ''
            @ str_int ((current_id s + b) div b)),
          Sleep interval],
       current_id := current_id s + b,
       n_sent_batches := n_sent_batches s + 1\<rparr>)" (is "_ = (_, ?s1)")
    using produce_iteration_sent [OF b] by simp
  from Suc.prems have "m = nat (limit - n_sent_batches ?s1)" by simp
  from Suc.IH [OF this] obtain s' where "produce_steps m cl b limit ?s1 = Some s'"
    and "\<not> n_sent_batches s' < limit" and "raised (trace s') = raised (trace ?s1)"
    by blast
  with guard it show ?case by (simp add: raised_append)
qed

lemma produce_while_at_limit:
  "\<not> n_sent_batches s < limit \<Longrightarrow> produce_while cl b limit s = Some (Inr (), s)"
  by (subst produce_while.simps) simp

lemma producer_start_simps:
  "current_id (producer_start w) = 0"
  "n_sent_batches (producer_start w) = 0"
  "client (producer_start w) = client w"
  "sent_batches (trace (producer_start w)) = sent_batches (trace w)"
  "raised (trace (producer_start w)) = raised (trace w)"
  "pacing p (trace (producer_start w)) = pacing p (trace w)"
  by (simp_all add: producer_start_def world.defs producer.defs step_defs
        sent_batches_append raised_append pacing_append split: option.splits)

lemma produce_messages_result:
  "produce_messages cl b limit w = Some (r, s) \<Longrightarrow>
     \<exists>s'. produce_while cl b limit (producer_start w) = Some (r, s')
       \<and> sent_batches (trace s) = sent_batches (trace s') \<and> raised (trace s) = raised (trace s')
       \<and> n_sent_batches s = n_sent_batches s' \<and> current_id s = current_id s'"
  by (auto simp: produce_messages_def step_defs sent_batches_append raised_append
        split: option.splits sum.splits)

lemma disjoint_expected_batches:
  assumes "0 < b" and "0 \<le> j"
  shows "set (expected_batch b (j + 2)) \<inter> set (expected_batch b (j + 1)) = {}"
proof -
  have "\<And>x y. j * b + 1 \<le> y \<Longrightarrow> y \<le> (j + 1) * b \<Longrightarrow> (j + 1) * b + 1 \<le> x \<Longrightarrow> payload_of x \<noteq> payload_of y"
  proof
    fix x y
    assume y: "j * b + 1 \<le> y" "y \<le> (j + 1) * b" and x: "(j + 1) * b + 1 \<le> x"
      and eq: "payload_of x = payload_of y"
    from assms have "0 \<le> j * b" by simp
    with y x have "0 \<le> x" "0 \<le> y" by simp_all
    with eq have "x = y" by (intro payload_of_inj)
    with y x show False by simp
  qed
  then show ?thesis by (auto simp: expected_batch_def algebra_simps)
qed

lemma produce_steps_snoc:
  "produce_steps k cl b limit s0 = Some s \<Longrightarrow> n_sent_batches s < limit \<Longrightarrow>
   produce_iteration cl b s = (Inr (), s1) \<Longrightarrow>
   produce_steps (Suc k) cl b limit s0 = Some s1"
proof (induction k arbitrary: s0)
  case 0
  then show ?case by simp
next
  case (Suc k)
  from Suc.prems(1) obtain s0' where guard0: "n_sent_batches s0 < limit"
    and it0: "produce_iteration cl b s0 = (Inr (), s0')"
    and rest: "produce_steps k cl b limit s0' = Some s"
    by (auto split: if_splits prod.splits sum.splits)
  from Suc.IH [OF rest Suc.prems(2,3)]
  have "produce_steps (Suc k) cl b limit s0' = Some s1" .
  with guard0 it0 show ?case by (subst produce_steps.simps) simp
qed

text \<open>When every send raises an \<open>Exception\<close>, no batch is ever counted and the loop does not return.\<close>

lemma produce_steps_all_failed:
  assumes b: "0 < b"
    and bad: "\<forall>ms c. \<exists>e c'. send_messages cl STREAM_NAME TOPIC_NAME PARTITION_ID ms c = (Inl e, c')
                \<and> is_Exception e"
  shows "produce_steps k cl b limit s = Some s' \<Longrightarrow> n_sent_batches s' = n_sent_batches s"
proof (induction k arbitrary: s)
  case 0
  then show ?case by simp
next
  case (Suc k)
  from Suc.prems obtain s1 where it: "produce_iteration cl b s = (Inr (), s1)"
    and rest: "produce_steps k cl b limit s1 = Some s'"
    by (auto split: if_splits prod.splits sum.splits)
  from bad obtain e c' where "send_messages cl STREAM_NAME TOPIC_NAME PARTITION_ID
      (map payload_of [current_id s + 1 .. current_id s + b]) (client s) = (Inl e, c')"
    and "is_Exception e" by blast
  from produce_iteration_failed [OF b this] it have "n_sent_batches s1 = n_sent_batches s" by auto
  with Suc.IH [OF rest] show ?case by simp
qed

lemma produce_while_all_failed:
  assumes b: "0 < b"
    and bad: "\<forall>ms c. \<exists>e c'. send_messages cl STREAM_NAME TOPIC_NAME PARTITION_ID ms c = (Inl e, c')
                \<and> is_Exception e"
    and guard: "n_sent_batches s < limit"
  shows "produce_while cl b limit s = None"
proof (cases "produce_while cl b limit s")
  case None
  then show ?thesis .
next
  case (Some res)
  obtain r s' where "res = (r, s')" by (cases res)
  with Some have "produce_while cl b limit s = Some (r, s')" by simp
  from produce_while_returns [OF this] obtain k s'' where
    steps: "produce_steps k cl b limit s = Some s''"
    and fin: "\<not> n_sent_batches s'' < limit
       \<or> (\<exists>error. produce_iteration cl b s'' = (Inl error, s'))" by blast
  from produce_steps_all_failed [OF b bad steps] guard have "n_sent_batches s'' < limit" by simp
  moreover from bad obtain e c' where "send_messages cl STREAM_NAME TOPIC_NAME PARTITION_ID
      (map payload_of [current_id s'' + 1 .. current_id s'' + b]) (client s'') = (Inl e, c')"
    and "is_Exception e" by blast
  from produce_iteration_failed [OF b this] have "fst (produce_iteration cl b s'') = Inr ()" by simp
  ultimately show ?thesis using fin by auto
qed

text \<open>The loop heads of the producer lie on one path.\<close>

lemma produce_steps_add:
  "produce_steps (j + m) cl b limit s =
     (case produce_steps j cl b limit s of
        None \<Rightarrow> None
      | Some h \<Rightarrow> produce_steps m cl b limit h)"
  by (induction j arbitrary: s) (auto split: prod.splits sum.splits)

lemma produce_while_head:
  assumes "produce_steps k cl b limit s = Some h"
  shows "produce_while cl b limit s =
     (if n_sent_batches h < limit
      then (case produce_iteration cl b h of
              (Inl error, s') \<Rightarrow> Some (Inl error, s')
            | (Inr u, s') \<Rightarrow> produce_while cl b limit s')
      else Some (Inr (), h))"
proof -
  from produce_while_steps [OF assms]
  have "produce_while cl b limit s = produce_while cl b limit h" .
  then show ?thesis by (subst (asm) (2) produce_while.simps)
qed

lemma produce_steps_sent:
  assumes "0 < b" and "produce_steps k cl b limit (producer_start w) = Some s"
  shows "current_id s = b * int k"
    and "sent_batches (trace s) = sent_batches (trace w) @ map (expected_batch b) [1 .. int k]"
  using produce_steps_state [OF assms] by (simp_all add: producer_start_simps expected_batches_eq)

text \<open>Batches with different numbers are different lists.\<close>

lemma expected_batch_inj:
  assumes b: "0 < b" and i: "1 \<le> i" and j: "1 \<le> j"
    and eq: "expected_batch b i = expected_batch b j"
  shows "i = j"
proof -
  from b have "[(i - 1) * b + 1 .. i * b] = ((i - 1) * b + 1) # [(i - 1) * b + 1 + 1 .. i * b]"
    by (intro upto_rec1) (simp add: algebra_simps)
  then have hi: "hd (expected_batch b i) = payload_of ((i - 1) * b + 1)"
    by (simp add: expected_batch_def)
  from b have "[(j - 1) * b + 1 .. j * b] = ((j - 1) * b + 1) # [(j - 1) * b + 1 + 1 .. j * b]"
    by (intro upto_rec1) (simp add: algebra_simps)
  then have hj: "hd (expected_batch b j) = payload_of ((j - 1) * b + 1)"
    by (simp add: expected_batch_def)
  from b i have "0 \<le> (i - 1) * b + 1" by simp
  moreover from b j have "0 \<le> (j - 1) * b + 1" by simp
  moreover from eq hi hj have "payload_of ((i - 1) * b + 1) = payload_of ((j - 1) * b + 1)" by simp
  ultimately have "(i - 1) * b + 1 = (j - 1) * b + 1" by (rule payload_of_inj)
  with b show ?thesis by simp
qed

text \<open>What a run of \<open>produce_messages\<close> that returns has sent.\<close>

lemma produce_messages_sent:
  assumes b: "0 < b"
    and ret: "produce_messages cl b limit w = Some (r, final)"
    and steps: "produce_steps k cl b limit (producer_start w) = Some s"
    and guard: "n_sent_batches s < limit"
  shows "\<exists>K. int k + 1 \<le> K
    \<and> sent_batches (trace final) = sent_batches (trace w) @ map (expected_batch b) [1 .. K]"
proof -
  from produce_messages_result [OF ret] obtain s' where
    loop: "produce_while cl b limit (producer_start w) = Some (r, s')"
    and same: "sent_batches (trace final) = sent_batches (trace s')"
    by blast
  from produce_while_returns [OF loop] obtain j h where
    sj: "produce_steps j cl b limit (producer_start w) = Some h"
    and fin: "(r = Inr () \<and> s' = h \<and> \<not> n_sent_batches h < limit)
       \<or> (\<exists>error. r = Inl error \<and> n_sent_batches h < limit
            \<and> produce_iteration cl b h = (Inl error, s'))"
    by blast
  have order: "k \<le> j"
  proof (rule ccontr)
    assume "\<not> k \<le> j"
    then obtain m where "k = j + Suc m"
      by (metis less_imp_Suc_add not_le add_Suc_right)
    with steps have "produce_steps (j + Suc m) cl b limit (producer_start w) = Some s" by simp
    with sj have "produce_steps (Suc m) cl b limit h = Some s"
      by (simp only: produce_steps_add option.case)
    then have "n_sent_batches h < limit \<and> (\<exists>h'. produce_iteration cl b h = (Inr (), h'))"
      by (auto split: if_splits prod.splits sum.splits)
    with fin show False by auto
  qed
  note at_h = produce_steps_sent [OF b sj]
  from fin show ?thesis
  proof
    assume a: "r = Inr () \<and> s' = h \<and> \<not> n_sent_batches h < limit"
    have "k \<noteq> j"
    proof
      assume "k = j"
      with steps sj have "h = s" by simp
      with a guard show False by simp
    qed
    with order have "int k + 1 \<le> int j" by simp
    moreover from a same at_h
    have "sent_batches (trace final) = sent_batches (trace w) @ map (expected_batch b) [1 .. int j]"
      by simp
    ultimately show ?thesis by blast
  next
    assume "\<exists>error. r = Inl error \<and> n_sent_batches h < limit
            \<and> produce_iteration cl b h = (Inl error, s')"
    then obtain error where it: "produce_iteration cl b h = (Inl error, s')" by blast
    from produce_iteration_any [OF b it] at_h
    have "sent_batches (trace s') = sent_batches (trace w) @ map (expected_batch b) [1 .. int j]
        @ [expected_batch b (int j + 1)]"
      by (simp add: expected_batch_eq)
    moreover have "[1 .. int j + 1] = [1 .. int j] @ [int j + 1]"
      by (simp add: upto_rec2)
    ultimately have "sent_batches (trace final)
        = sent_batches (trace w) @ map (expected_batch b) [1 .. int j + 1]"
      using same by simp
    moreover from order have "int k + 1 \<le> int j + 1" by simp
    ultimately show ?thesis by blast
  qed
qed

text \<open>A run of \<open>produce_messages\<close> returns exactly when its loop reaches a head that ends it.\<close>

lemma produce_messages_total:
  "(\<exists>res. produce_messages cl b limit w = Some res)
     = (\<exists>j h. produce_steps j cl b limit (producer_start w) = Some h
          \<and> (\<not> n_sent_batches h < limit \<or> isl (fst (produce_iteration cl b h))))"
proof
  assume "\<exists>res. produce_messages cl b limit w = Some res"
  then obtain r0 fin where loop: "produce_while cl b limit (producer_start w) = Some (r0, fin)"
    by (auto simp: produce_messages_def split: option.splits)
  from produce_while_returns [OF loop] obtain j h where
    "produce_steps j cl b limit (producer_start w) = Some h"
    "\<not> n_sent_batches h < limit \<or> isl (fst (produce_iteration cl b h))"
    by auto
  then show "\<exists>j h. produce_steps j cl b limit (producer_start w) = Some h
          \<and> (\<not> n_sent_batches h < limit \<or> isl (fst (produce_iteration cl b h)))"
    by blast
next
  assume "\<exists>j h. produce_steps j cl b limit (producer_start w) = Some h
          \<and> (\<not> n_sent_batches h < limit \<or> isl (fst (produce_iteration cl b h)))"
  then obtain j h where steps: "produce_steps j cl b limit (producer_start w) = Some h"
    and stop: "\<not> n_sent_batches h < limit \<or> isl (fst (produce_iteration cl b h))"
    by blast
  obtain r s' where it: "produce_iteration cl b h = (r, s')"
    by (cases "produce_iteration cl b h")
  from stop it have "\<exists>res. produce_while cl b limit (producer_start w) = Some res"
    by (subst produce_while_head [OF steps]) (cases r; simp)
  then show "\<exists>res. produce_messages cl b limit w = Some res"
    by (auto simp: produce_messages_def split: sum.splits)
qed

subsection \<open>\<open>init_system\<close> and \<open>main\<close>\<close>

lemma since_append: "trace w' = trace w @ evs \<Longrightarrow> since w w' = evs"
  by (simp add: since_def)

lemmas init_defs = Let_def init_system_def init_stream_def init_topic_def stream_handler_def topic_handler_def

text \<open>What the two blocks of \<open>init_system\<close> add to the trace, in every case.\<close>

lemma init_stream_trace:
  assumes "init_stream cl w = (r, w')"
  shows "\<exists>evs. trace w' = trace w @ evs
    \<and> (\<forall>e \<in> set (raised evs). is_Exception e \<longrightarrow> Log ERROR (message e) \<in> set evs)
    \<and> (\<forall>e. r = Inl e \<longrightarrow> \<not> is_Exception e)"
proof -
  obtain g c1 where g: "get_stream cl STREAM_NAME (client w) = (g, c1)"
    by (cases "get_stream cl STREAM_NAME (client w)")
  obtain cr c2 where cr: "create_stream cl STREAM_NAME STREAM_ID c1 = (cr, c2)"
    by (cases "create_stream cl STREAM_NAME STREAM_ID c1")
  show ?thesis
  proof (cases g)
    case (Inl e)
    with assms g show ?thesis
      by (cases "is_Exception e") (auto simp: init_defs step_defs)
  next
    case (Inr found)
    show ?thesis
    proof (cases found)
      case (Some stream)
      with assms g Inr show ?thesis by (auto simp: init_defs step_defs)
    next
      case None
      show ?thesis
      proof (cases cr)
        case (Inl e)
        with assms g cr Inr None show ?thesis
          by (cases "is_Exception e") (auto simp: init_defs step_defs)
      next
        case (Inr u)
        with assms g cr \<open>g = Inr found\<close> None show ?thesis
          by (auto simp: init_defs step_defs)
      qed
    qed
  qed
qed

lemma init_topic_trace:
  assumes "init_topic cl w = (r, w')"
  shows "\<exists>evs. trace w' = trace w @ evs
    \<and> GetTopic STREAM_NAME TOPIC_NAME \<in> set evs
    \<and> (\<forall>e \<in> set (raised evs). is_Exception e \<longrightarrow> Log ERROR (message e) \<in> set evs)
    \<and> (\<forall>e. r = Inl e \<longrightarrow> \<not> is_Exception e)"
proof -
  obtain g c1 where g: "get_topic cl STREAM_NAME TOPIC_NAME (client w) = (g, c1)"
    by (cases "get_topic cl STREAM_NAME TOPIC_NAME (client w)")
  obtain cr c2 where cr: "create_topic cl STREAM_NAME 1 TOPIC_NAME 1 c1 = (cr, c2)"
    by (cases "create_topic cl STREAM_NAME 1 TOPIC_NAME 1 c1")
  show ?thesis
  proof (cases g)
    case (Inl e)
    with assms g show ?thesis
      by (cases "is_Exception e") (auto simp: init_defs step_defs)
  next
    case (Inr found)
    show ?thesis
    proof (cases found)
      case (Some topic)
      with assms g Inr show ?thesis by (auto simp: init_defs step_defs)
    next
      case None
      show ?thesis
      proof (cases cr)
        case (Inl e)
        with assms g cr Inr None show ?thesis
          by (cases "is_Exception e") (auto simp: init_defs step_defs)
      next
        case (Inr u)
        with assms g cr \<open>g = Inr found\<close> None show ?thesis
          by (auto simp: init_defs step_defs)
      qed
    qed
  qed
qed

lemma init_system_trace:
  assumes "init_system cl w = (r, w')"
  shows "\<exists>evs. trace w' = trace w @ evs
    \<and> (r = Inr () \<longrightarrow> GetTopic STREAM_NAME TOPIC_NAME \<in> set evs)
    \<and> (\<forall>e \<in> set (raised evs). is_Exception e \<longrightarrow> Log ERROR (message e) \<in> set evs)
    \<and> (\<forall>e. r = Inl e \<longrightarrow> \<not> is_Exception e)"
proof -
  obtain r1 w1 where s: "init_stream cl w = (r1, w1)" by (cases "init_stream cl w")
  from init_stream_trace [OF s] obtain evs1 where t1: "trace w1 = trace w @ evs1"
    and l1: "\<forall>e \<in> set (raised evs1). is_Exception e \<longrightarrow> Log ERROR (message e) \<in> set evs1"
    and e1: "\<forall>e. r1 = Inl e \<longrightarrow> \<not> is_Exception e" by blast
  show ?thesis
  proof (cases r1)
    case (Inl e)
    with s assms have "r = r1" "w' = w1" by (simp_all add: init_system_def)
    with t1 l1 e1 Inl show ?thesis by auto
  next
    case (Inr u)
    with s assms have t: "init_topic cl w1 = (r, w')" by (simp add: init_system_def)
    from init_topic_trace [OF t] obtain evs2 where t2: "trace w' = trace w1 @ evs2"
      and g2: "GetTopic STREAM_NAME TOPIC_NAME \<in> set evs2"
      and l2: "\<forall>e \<in> set (raised evs2). is_Exception e \<longrightarrow> Log ERROR (message e) \<in> set evs2"
      and e2: "\<forall>e. r = Inl e \<longrightarrow> \<not> is_Exception e" by blast
    from t1 t2 have "trace w' = trace w @ (evs1 @ evs2)" by simp
    moreover from g2 have "GetTopic STREAM_NAME TOPIC_NAME \<in> set (evs1 @ evs2)" by simp
    moreover from l1 l2 have "\<forall>e \<in> set (raised (evs1 @ evs2)). is_Exception e \<longrightarrow> Log ERROR (message e) \<in> set (evs1 @ evs2)"
      by (auto simp: raised_append)
    ultimately show ?thesis using e2 by blast
  qed
qed

lemma main_after_login:
  assumes "connect cl (client w) = (Inr (), c1)"
    and "login_user cl ''messenger'' ''messenger'' c1 = (Inr (), c2)"
  shows "main cl b limit w =
    (case init_system cl \<lparr>client = c2, trace = trace w @
              [Log INFO ''Connecting to MessengerClient'', Connect,
               Log INFO ''Connected. Logging in user...'', LoginUser ''messenger'' ''messenger'',
               Log INFO ''Logged in.'']\<rparr> of
       (Inl error, w3) \<Rightarrow> Some (Inl error, w3)
     | (Inr u, w3) \<Rightarrow> map_option (\<lambda>(r, s). (r, world.truncate s)) (produce_messages cl b limit w3))"
  using assms by (cases w) (simp add: main_def step_defs)

subsection \<open>The consumer\<close>

lemmas consumer_defs = eval_nat_numeral consume_messages_def consumer_start_def consume_while.simps
  consume_iteration_def consume_handler_def handle_message_def world.defs consumer.defs
  scripted_client_def script_def decode_ascii_def is_ascii_def handling_line_def

text \<open>The \<open>for\<close> loop over the polled messages.\<close>

lemma nonempty_polls_append: "nonempty_polls (xs @ ys) = nonempty_polls xs + nonempty_polls ys"
  by (induction xs rule: nonempty_polls.induct) simp_all

lemma only_lines:
  "\<forall>e \<in> set evs. \<exists>line. e = Log INFO line \<Longrightarrow>
     pacing p evs = Some p \<and> raised evs = [] \<and> Sleep t \<notin> set evs \<and> nonempty_polls evs = 0"
  by (induction evs) auto

lemma handle_messages_frame:
  "handle_messages decode msgs s = (r, s') \<Longrightarrow>
     client s' = client s \<and> offset s' = offset s \<and> n_consumed_batches s' = n_consumed_batches s
     \<and> (\<exists>evs. trace s' = trace s @ evs \<and> (\<forall>e \<in> set evs. \<exists>line. e = Log INFO line))"
proof (induction msgs arbitrary: s)
  case Nil
  then show ?case by simp
next
  case (Cons msg rest)
  show ?case
  proof (cases "decode (message_payload msg)")
    case (Inl e)
    with Cons.prems show ?thesis by (simp add: handle_message_def)
  next
    case (Inr decoded)
    let ?line = "''Handling message at offset: '' @ str_nat (message_offset msg)
                     @ '' with payload: '' @ decoded @ ''...''"
    from Inr Cons.prems have "handle_messages decode rest (logger INFO ?line s) = (r, s')"
      by (simp add: handle_message_def)
    from Cons.IH [OF this] obtain evs where "client s' = client s" "offset s' = offset s"
      "n_consumed_batches s' = n_consumed_batches s"
      and ev: "trace s' = trace (logger INFO ?line s) @ evs" "\<forall>e \<in> set evs. \<exists>line. e = Log INFO line"
      by (auto simp: step_defs)
    moreover from ev have "trace s' = trace s @ (Log INFO ?line # evs)
      \<and> (\<forall>e \<in> set (Log INFO ?line # evs). \<exists>line. e = Log INFO line)"
      by (simp add: step_defs)
    ultimately show ?thesis by blast
  qed
qed

text \<open>
  The \<open>for\<close> loop handles the messages in the order of the list and stops at the first
  whose payload does not decode, with what the decoder raised.
\<close>

lemma takeWhile_all: "list_all P xs \<Longrightarrow> takeWhile P xs = xs"
  by (simp add: list_all_iff)

lemma handle_messages_eq:
  "handle_messages decode msgs s =
     (if list_all (decodes decode) msgs then Inr ()
      else Inl (projl (decode (message_payload (hd (dropWhile (decodes decode) msgs))))),
      s\<lparr>trace := trace s @ map (handling_of decode) (takeWhile (decodes decode) msgs)\<rparr>)"
proof (induction msgs arbitrary: s)
  case Nil
  show ?case by simp
next
  case (Cons msg rest)
  show ?case
  proof (cases "decode (message_payload msg)")
    case (Inl e)
    then show ?thesis by (simp add: handle_message_def decodes_def)
  next
    case (Inr decoded)
    then show ?thesis
      by (simp add: Cons.IH handle_message_def decodes_def handling_of_def handling_line_def step_defs)
  qed
qed

text \<open>One iteration of the consumer, by what the poll answers.\<close>

lemma consume_iteration_raised:
  assumes "poll_messages cl STREAM_NAME TOPIC_NAME PARTITION_ID Next b True (client s) = (Inl error, c')"
    and "is_Exception error"
  shows "consume_iteration decode cl b s =
    (Break, s\<lparr>client := c',
       trace := trace s @
         [Log DEBUG ''Polling for messages...'',
          PollMessages STREAM_NAME TOPIC_NAME PARTITION_ID Next b True,
          Raised error,
          Log ERROR (''Exception occurred while consuming messages: '' @ message error)]\<rparr>)"
  using assms by (simp add: consume_iteration_def consume_handler_def step_defs)

lemma consume_iteration_interrupted:
  assumes "poll_messages cl STREAM_NAME TOPIC_NAME PARTITION_ID Next b True (client s) = (Inl error, c')"
    and "\<not> is_Exception error"
  shows "consume_iteration decode cl b s =
    (Raise error, s\<lparr>client := c',
       trace := trace s @
         [Log DEBUG ''Polling for messages...'',
          PollMessages STREAM_NAME TOPIC_NAME PARTITION_ID Next b True,
          Raised error]\<rparr>)"
  using assms by (simp add: consume_iteration_def consume_handler_def step_defs)

lemma consume_iteration_empty:
  assumes "poll_messages cl STREAM_NAME TOPIC_NAME PARTITION_ID Next b True (client s) = (Inr [], c')"
  shows "consume_iteration decode cl b s =
    (Continue, s\<lparr>client := c',
       trace := trace s @
         [Log DEBUG ''Polling for messages...'',
          PollMessages STREAM_NAME TOPIC_NAME PARTITION_ID Next b True,
          Polled [],
          Log INFO ''No messages found in current poll'',
          Sleep interval]\<rparr>)"
  using assms by (simp add: consume_iteration_def step_defs)

lemma consume_iteration_handled:
  assumes "poll_messages cl STREAM_NAME TOPIC_NAME PARTITION_ID Next b True (client s) = (Inr msgs, c')"
    and "msgs \<noteq> []"
    and "list_all (decodes decode) msgs"
  shows "consume_iteration decode cl b s =
    (Continue, s\<lparr>client := c',
       trace := trace s @
         [Log DEBUG ''Polling for messages...'',
          PollMessages STREAM_NAME TOPIC_NAME PARTITION_ID Next b True,
          Polled msgs]
         @ map (handling_of decode) msgs
         @ [Sleep interval],
       offset := offset s + int (length msgs),
       n_consumed_batches := n_consumed_batches s + 1\<rparr>)"
  using assms by (simp add: consume_iteration_def step_defs handle_messages_eq takeWhile_all)

lemma consume_iteration_undecoded:
  assumes "poll_messages cl STREAM_NAME TOPIC_NAME PARTITION_ID Next b True (client s) = (Inr msgs, c')"
    and "\<not> list_all (decodes decode) msgs"
    and "error = projl (decode (message_payload (hd (dropWhile (decodes decode) msgs))))"
  shows "consume_iteration decode cl b s =
    (if is_Exception error then Break else Raise error,
     s\<lparr>client := c',
       trace := trace s @
         [Log DEBUG ''Polling for messages...'',
          PollMessages STREAM_NAME TOPIC_NAME PARTITION_ID Next b True,
          Polled msgs]
         @ map (handling_of decode) (takeWhile (decodes decode) msgs)
         @ (if is_Exception error
            then [Log ERROR (''Exception occurred while consuming messages: '' @ message error)]
            else []),
       offset := offset s + int (length msgs)\<rparr>)"
proof -
  from assms(2) have "msgs \<noteq> []" by auto
  with assms show ?thesis
    by (simp add: consume_iteration_def consume_handler_def step_defs handle_messages_eq)
qed

lemma handling_lines_quiet:
  "pacing p (map (handling_of decode) msgs) = Some p"
  "raised (map (handling_of decode) msgs) = []"
  "nonempty_polls (map (handling_of decode) msgs) = 0"
  "Sleep t \<notin> set (map (handling_of decode) msgs)"
  by (induction msgs) (auto simp: handling_of_def handling_line_def)

text \<open>What every iteration of the consumer does.\<close>

lemma consume_iteration_any:
  assumes poll: "poll_messages cl STREAM_NAME TOPIC_NAME PARTITION_ID Next b True (client s) = (res, c')"
    and it: "consume_iteration decode cl b s = (fl, s')"
  shows "client s' = c'
    \<and> offset s' = offset s + (case res of Inl e \<Rightarrow> 0 | Inr msgs \<Rightarrow> int (length msgs))
    \<and> n_consumed_batches s \<le> n_consumed_batches s' \<and> n_consumed_batches s' \<le> n_consumed_batches s + 1
    \<and> (fl \<noteq> Continue \<longrightarrow> n_consumed_batches s' = n_consumed_batches s)
    \<and> (fl = Break \<longrightarrow> (\<exists>m. last (trace s') = Log ERROR (''Exception occurred while consuming messages: '' @ m)))
    \<and> (\<exists>evs. trace s' = trace s @ evs
         \<and> (fl = Continue \<longrightarrow> pacing False evs = Some False)
         \<and> (fl = Continue \<longrightarrow> n_consumed_batches s' = n_consumed_batches s + int (nonempty_polls evs))
         \<and> pacing False evs \<noteq> None
         \<and> (fl \<noteq> Continue \<longrightarrow> Sleep interval \<notin> set evs))"
proof (cases res)
  case (Inl error)
  with poll have p: "poll_messages cl STREAM_NAME TOPIC_NAME PARTITION_ID Next b True (client s) = (Inl error, c')"
    by simp
  show ?thesis
  proof (cases "is_Exception error")
    case True
    from consume_iteration_raised [OF p True] it Inl show ?thesis by auto
  next
    case False
    from consume_iteration_interrupted [OF p False] it Inl show ?thesis by auto
  qed
next
  case (Inr msgs)
  with poll have p: "poll_messages cl STREAM_NAME TOPIC_NAME PARTITION_ID Next b True (client s) = (Inr msgs, c')"
    by simp
  show ?thesis
  proof (cases "msgs = []")
    case True
    with p have "poll_messages cl STREAM_NAME TOPIC_NAME PARTITION_ID Next b True (client s) = (Inr [], c')"
      by simp
    from consume_iteration_empty [OF this] it Inr True show ?thesis by auto
  next
    case False
    show ?thesis
    proof (cases "list_all (decodes decode) msgs")
      case True
      from consume_iteration_handled [OF p False True] it Inr False show ?thesis
        by (auto simp: pacing_append nonempty_polls_append handling_lines_quiet handling_of_def
            handling_line_def)
    next
      case undecoded: False
      from consume_iteration_undecoded [OF p undecoded refl] it Inr False show ?thesis
        by (auto simp: pacing_append nonempty_polls_append handling_lines_quiet handling_of_def
            handling_line_def split: if_splits)
    qed
  qed
qed

text \<open>The consumer's loop.\<close>

lemma consume_steps_state:
  "consume_steps k decode cl b limit s = Some s' \<Longrightarrow>
     n_consumed_batches s \<le> n_consumed_batches s'
     \<and> n_consumed_batches s' \<le> max limit (n_consumed_batches s)
     \<and> offset s \<le> offset s'
     \<and> (\<forall>p. pacing p (trace s) = Some False \<longrightarrow> pacing p (trace s') = Some False)"
proof (induction k arbitrary: s)
  case 0
  then show ?case by simp
next
  case (Suc k)
  from Suc.prems obtain s1 where guard: "n_consumed_batches s < limit"
    and it: "consume_iteration decode cl b s = (Continue, s1)"
    and rest: "consume_steps k decode cl b limit s1 = Some s'"
    by (auto split: if_splits prod.splits flow.splits)
  obtain res c' where poll: "poll_messages cl STREAM_NAME TOPIC_NAME PARTITION_ID Next b True (client s) = (res, c')"
    by (cases "poll_messages cl STREAM_NAME TOPIC_NAME PARTITION_ID Next b True (client s)")
  from consume_iteration_any [OF poll it] obtain evs where
    n: "n_consumed_batches s \<le> n_consumed_batches s1" "n_consumed_batches s1 \<le> n_consumed_batches s + 1"
    and off: "offset s1 = offset s + (case res of Inl e \<Rightarrow> 0 | Inr msgs \<Rightarrow> int (length msgs))"
    and tr: "trace s1 = trace s @ evs" "pacing False evs = Some False"
    by auto
  from off have "offset s \<le> offset s1" by (simp split: sum.splits)
  moreover from tr have "\<forall>p. pacing p (trace s) = Some False \<longrightarrow> pacing p (trace s1) = Some False"
    by (simp add: pacing_append)
  ultimately show ?case using Suc.IH [OF rest] n guard by (auto simp: max_def split: if_splits)
qed

lemma consume_while_steps:
  "consume_steps k decode cl b limit s = Some s' \<Longrightarrow>
     consume_while decode cl b limit s = consume_while decode cl b limit s'"
proof (induction k arbitrary: s)
  case 0
  then show ?case by simp
next
  case (Suc k)
  from Suc.prems obtain s1 where guard: "n_consumed_batches s < limit"
    and it: "consume_iteration decode cl b s = (Continue, s1)"
    and rest: "consume_steps k decode cl b limit s1 = Some s'"
    by (auto split: if_splits prod.splits flow.splits)
  from guard it have "consume_while decode cl b limit s = consume_while decode cl b limit s1"
    by (subst consume_while.simps) simp
  with Suc.IH [OF rest] show ?case by simp
qed

text \<open>A loop of the consumer that returns has come back to its head some number of times.\<close>

lemma consume_while_returns:
  assumes "consume_while decode cl b limit s = Some (r, s')"
  shows "\<exists>k s''. consume_steps k decode cl b limit s = Some s''
    \<and> ((r = Inr () \<and> s' = s'' \<and> \<not> n_consumed_batches s'' < limit)
       \<or> (r = Inr () \<and> n_consumed_batches s'' < limit
            \<and> consume_iteration decode cl b s'' = (Break, s'))
       \<or> (\<exists>error. r = Inl error \<and> n_consumed_batches s'' < limit
            \<and> consume_iteration decode cl b s'' = (Raise error, s')))"
proof (rule consume_while.raw_induct [where P = "\<lambda>decode cl b limit s res.
     \<exists>k s''. consume_steps k decode cl b limit s = Some s''
      \<and> ((fst res = Inr () \<and> snd res = s'' \<and> \<not> n_consumed_batches s'' < limit)
       \<or> (fst res = Inr () \<and> n_consumed_batches s'' < limit
            \<and> consume_iteration decode cl b s'' = (Break, snd res))
       \<or> (\<exists>error. fst res = Inl error \<and> n_consumed_batches s'' < limit
            \<and> consume_iteration decode cl b s'' = (Raise error, snd res)))", OF _ assms, simplified])
  fix f :: "(string \<Rightarrow> exn + string) \<Rightarrow> 'a IggyClient \<Rightarrow> int \<Rightarrow> int \<Rightarrow> 'a consumer
      \<Rightarrow> ((exn + unit) \<times> 'a consumer) option"
    and decode cl b limit s res
  assume IH: "\<And>decode cl b limit s res. f decode cl b limit s = Some res \<Longrightarrow>
     \<exists>k s''. consume_steps k decode cl b limit s = Some s''
      \<and> ((fst res = Inr () \<and> snd res = s'' \<and> \<not> n_consumed_batches s'' < limit)
       \<or> (fst res = Inr () \<and> n_consumed_batches s'' < limit
            \<and> consume_iteration decode cl b s'' = (Break, snd res))
       \<or> (\<exists>error. fst res = Inl error \<and> n_consumed_batches s'' < limit
            \<and> consume_iteration decode cl b s'' = (Raise error, snd res)))"
    and eq: "(if n_consumed_batches s < limit
      then (case consume_iteration decode cl b s of
              (Continue, s') \<Rightarrow> f decode cl b limit s'
            | (Break, s') \<Rightarrow> Some (Inr (), s')
            | (Raise error, s') \<Rightarrow> Some (Inl error, s'))
      else Some (Inr (), s)) = Some res"
  let ?goal = "\<exists>k s''. consume_steps k decode cl b limit s = Some s''
      \<and> ((fst res = Inr () \<and> snd res = s'' \<and> \<not> n_consumed_batches s'' < limit)
       \<or> (fst res = Inr () \<and> n_consumed_batches s'' < limit
            \<and> consume_iteration decode cl b s'' = (Break, snd res))
       \<or> (\<exists>error. fst res = Inl error \<and> n_consumed_batches s'' < limit
            \<and> consume_iteration decode cl b s'' = (Raise error, snd res)))"
  show ?goal
  proof (cases "n_consumed_batches s < limit")
    case False
    with eq have "res = (Inr (), s)" by simp
    with False have "consume_steps 0 decode cl b limit s = Some s
      \<and> (fst res = Inr () \<and> snd res = s \<and> \<not> n_consumed_batches s < limit)" by simp
    then show ?thesis by blast
  next
    case True
    obtain fl s1 where it: "consume_iteration decode cl b s = (fl, s1)"
      by (cases "consume_iteration decode cl b s")
    show ?thesis
    proof (cases fl)
      case Break
      with eq True it have "res = (Inr (), s1)" by simp
      with True it Break have "consume_steps 0 decode cl b limit s = Some s
        \<and> (fst res = Inr () \<and> n_consumed_batches s < limit
            \<and> consume_iteration decode cl b s = (Break, snd res))" by simp
      then show ?thesis by blast
    next
      case (Raise error)
      with eq True it have "res = (Inl error, s1)" by simp
      with True it Raise have "consume_steps 0 decode cl b limit s = Some s
        \<and> (\<exists>error. fst res = Inl error \<and> n_consumed_batches s < limit
            \<and> consume_iteration decode cl b s = (Raise error, snd res))" by simp
      then show ?thesis by blast
    next
      case Continue
      with eq True it have "f decode cl b limit s1 = Some res" by simp
      from IH [OF this] obtain k s'' where
        k: "consume_steps k decode cl b limit s1 = Some s''"
        and fin: "(fst res = Inr () \<and> snd res = s'' \<and> \<not> n_consumed_batches s'' < limit)
       \<or> (fst res = Inr () \<and> n_consumed_batches s'' < limit
            \<and> consume_iteration decode cl b s'' = (Break, snd res))
       \<or> (\<exists>error. fst res = Inl error \<and> n_consumed_batches s'' < limit
            \<and> consume_iteration decode cl b s'' = (Raise error, snd res))" by blast
      from k True it Continue have "consume_steps (Suc k) decode cl b limit s = Some s''" by simp
      with fin show ?thesis by blast
    qed
  qed
qed

lemma consumer_start_simps:
  "offset (consumer_start w) = 0"
  "n_consumed_batches (consumer_start w) = 0"
  "client (consumer_start w) = client w"
  "raised (trace (consumer_start w)) = raised (trace w)"
  "pacing p (trace (consumer_start w)) = pacing p (trace w)"
  by (simp_all add: consumer_start_def world.defs consumer.defs step_defs
        raised_append pacing_append split: option.splits)

text \<open>The loop heads of the consumer: the count is the number of non-empty polls so far.\<close>

lemma consume_steps_snoc:
  "consume_steps k decode cl b limit s0 = Some s \<Longrightarrow> n_consumed_batches s < limit \<Longrightarrow>
   consume_iteration decode cl b s = (Continue, s1) \<Longrightarrow>
   consume_steps (Suc k) decode cl b limit s0 = Some s1"
proof (induction k arbitrary: s0)
  case 0
  then show ?case by simp
next
  case (Suc k)
  from Suc.prems(1) obtain s0' where guard0: "n_consumed_batches s0 < limit"
    and it0: "consume_iteration decode cl b s0 = (Continue, s0')"
    and rest: "consume_steps k decode cl b limit s0' = Some s"
    by (auto split: if_splits prod.splits flow.splits)
  from Suc.IH [OF rest Suc.prems(2,3)]
  have "consume_steps (Suc k) decode cl b limit s0' = Some s1" .
  with guard0 it0 show ?case by (subst consume_steps.simps) simp
qed

lemma consume_steps_polls:
  "consume_steps k decode cl b limit s = Some s' \<Longrightarrow>
     \<exists>evs. trace s' = trace s @ evs
       \<and> n_consumed_batches s' = n_consumed_batches s + int (nonempty_polls evs)"
proof (induction k arbitrary: s)
  case 0
  then show ?case by simp
next
  case (Suc k)
  from Suc.prems obtain s1 where guard: "n_consumed_batches s < limit"
    and it: "consume_iteration decode cl b s = (Continue, s1)"
    and rest: "consume_steps k decode cl b limit s1 = Some s'"
    by (auto split: if_splits prod.splits flow.splits)
  obtain res c' where poll: "poll_messages cl STREAM_NAME TOPIC_NAME PARTITION_ID Next b True (client s) = (res, c')"
    by (cases "poll_messages cl STREAM_NAME TOPIC_NAME PARTITION_ID Next b True (client s)")
  from consume_iteration_any [OF poll it] obtain evs where
    one: "trace s1 = trace s @ evs"
      "n_consumed_batches s1 = n_consumed_batches s + int (nonempty_polls evs)"
    by auto
  from Suc.IH [OF rest] obtain evs' where
    more: "trace s' = trace s1 @ evs'"
      "n_consumed_batches s' = n_consumed_batches s1 + int (nonempty_polls evs')"
    by auto
  from one more have "trace s' = trace s @ (evs @ evs')
      \<and> n_consumed_batches s' = n_consumed_batches s + int (nonempty_polls (evs @ evs'))"
    by (simp add: nonempty_polls_append)
  then show ?case by blast
qed

lemma consume_while_head:
  assumes "consume_steps k decode cl b limit s = Some h"
  shows "consume_while decode cl b limit s =
     (if n_consumed_batches h < limit
      then (case consume_iteration decode cl b h of
              (Continue, s') \<Rightarrow> consume_while decode cl b limit s'
            | (Break, s') \<Rightarrow> Some (Inr (), s')
            | (Raise error, s') \<Rightarrow> Some (Inl error, s'))
      else Some (Inr (), h))"
proof -
  from consume_while_steps [OF assms]
  have "consume_while decode cl b limit s = consume_while decode cl b limit h" .
  then show ?thesis by (subst (asm) (2) consume_while.simps)
qed

lemma consume_iteration_raise:
  assumes "consume_iteration decode cl b s = (Raise error, s')"
  shows "\<not> is_Exception error"
proof -
  obtain res c' where poll: "poll_messages cl STREAM_NAME TOPIC_NAME PARTITION_ID Next b True (client s) = (res, c')"
    by (cases "poll_messages cl STREAM_NAME TOPIC_NAME PARTITION_ID Next b True (client s)")
  show ?thesis
  proof (cases res)
    case (Inl e)
    with poll have p: "poll_messages cl STREAM_NAME TOPIC_NAME PARTITION_ID Next b True (client s) = (Inl e, c')"
      by simp
    show ?thesis
    proof (cases "is_Exception e")
      case True
      from consume_iteration_raised [OF p True, of decode] assms show ?thesis by simp
    next
      case False
      from consume_iteration_interrupted [OF p False, of decode] assms False show ?thesis by simp
    qed
  next
    case (Inr msgs)
    with poll have p: "poll_messages cl STREAM_NAME TOPIC_NAME PARTITION_ID Next b True (client s) = (Inr msgs, c')"
      by simp
    show ?thesis
    proof (cases "msgs = []")
      case True
      with p have "poll_messages cl STREAM_NAME TOPIC_NAME PARTITION_ID Next b True (client s) = (Inr [], c')"
        by simp
      from consume_iteration_empty [OF this, of decode] assms show ?thesis by simp
    next
      case False
      show ?thesis
      proof (cases "list_all (decodes decode) msgs")
        case True
        from consume_iteration_handled [OF p False True] assms show ?thesis by simp
      next
        case undecoded: False
        from consume_iteration_undecoded [OF p undecoded refl] assms show ?thesis
          by (simp split: if_splits)
      qed
    qed
  qed
qed

text \<open>Where a run of \<open>consume_messages\<close> that returns has ended.\<close>

lemma consume_messages_returns:
  assumes ret: "consume_messages decode cl b limit w = Some (r, final)"
    and pos: "0 \<le> limit"
  shows "(r = Inr () \<and> n_consumed_batches final = limit
            \<and> int (nonempty_polls (since w final)) = limit)
       \<or> (r = Inr () \<and> n_consumed_batches final < limit
            \<and> (\<exists>m. last (butlast (trace final))
                  = Log ERROR (''Exception occurred while consuming messages: '' @ m)))
       \<or> (\<exists>error. r = Inl error \<and> \<not> is_Exception error \<and> n_consumed_batches final < limit)"
proof -
  from ret obtain r0 fin where loop: "consume_while decode cl b limit (consumer_start w) = Some (r0, fin)"
    by (auto simp: consume_messages_def split: option.splits)
  from consume_while_returns [OF loop] obtain k h where
    steps: "consume_steps k decode cl b limit (consumer_start w) = Some h"
    and fin: "(r0 = Inr () \<and> fin = h \<and> \<not> n_consumed_batches h < limit)
       \<or> (r0 = Inr () \<and> n_consumed_batches h < limit
            \<and> consume_iteration decode cl b h = (Break, fin))
       \<or> (\<exists>error. r0 = Inl error \<and> n_consumed_batches h < limit
            \<and> consume_iteration decode cl b h = (Raise error, fin))"
    by blast
  from consume_steps_state [OF steps] pos
  have bound: "n_consumed_batches h \<le> limit"
    by (simp add: consumer_start_simps max_def split: if_splits)
  from consume_steps_polls [OF steps] obtain evs where
    tr: "trace h = trace (consumer_start w) @ evs"
    and count: "n_consumed_batches h = int (nonempty_polls evs)"
    by (auto simp: consumer_start_simps)
  obtain res c' where poll: "poll_messages cl STREAM_NAME TOPIC_NAME PARTITION_ID Next b True (client h) = (res, c')"
    by (cases "poll_messages cl STREAM_NAME TOPIC_NAME PARTITION_ID Next b True (client h)")
  from fin show ?thesis
  proof (elim disjE)
    assume a: "r0 = Inr () \<and> fin = h \<and> \<not> n_consumed_batches h < limit"
    with loop ret have final: "r = Inr ()"
      "final = logger INFO (''Consumed '' @ str_int (n_consumed_batches h)
                          @ '' batches of messages, exiting.'') h"
      by (simp_all add: consume_messages_def)
    from a bound have "n_consumed_batches h = limit" by simp
    moreover from final tr have "since w final = since w (consumer_start w) @ evs
        @ [Log INFO (''Consumed '' @ str_int (n_consumed_batches h) @ '' batches of messages, exiting.'')]"
      by (simp add: since_def consumer_start_def step_defs world.defs)
    then have "nonempty_polls (since w final) = nonempty_polls evs"
      by (simp add: nonempty_polls_append since_def consumer_start_def step_defs world.defs)
    ultimately show ?thesis using final count by (simp add: step_defs)
  next
    assume a: "r0 = Inr () \<and> n_consumed_batches h < limit
            \<and> consume_iteration decode cl b h = (Break, fin)"
    with loop ret have final: "r = Inr ()"
      "final = logger INFO (''Consumed '' @ str_int (n_consumed_batches fin)
                          @ '' batches of messages, exiting.'') fin"
      by (simp_all add: consume_messages_def)
    from a consume_iteration_any [OF poll, of decode Break fin]
    have "n_consumed_batches fin = n_consumed_batches h"
      and "\<exists>m. last (trace fin) = Log ERROR (''Exception occurred while consuming messages: '' @ m)"
      by simp_all
    with a final show ?thesis by (simp add: step_defs)
  next
    assume "\<exists>error. r0 = Inl error \<and> n_consumed_batches h < limit
            \<and> consume_iteration decode cl b h = (Raise error, fin)"
    then obtain error where a: "r0 = Inl error" "n_consumed_batches h < limit"
      "consume_iteration decode cl b h = (Raise error, fin)" by blast
    with loop ret have final: "r = Inl error" "final = fin"
      by (simp_all add: consume_messages_def)
    from a consume_iteration_any [OF poll, of decode "Raise error" fin]
    have "n_consumed_batches fin = n_consumed_batches h" by simp
    with a final consume_iteration_raise [OF a(3)] show ?thesis by simp
  qed
qed

text \<open>A run of \<open>consume_messages\<close> returns exactly when its loop reaches a head that ends it.\<close>

lemma consume_messages_total:
  "(\<exists>res. consume_messages decode cl b limit w = Some res)
     = (\<exists>k h. consume_steps k decode cl b limit (consumer_start w) = Some h
          \<and> (\<not> n_consumed_batches h < limit \<or> fst (consume_iteration decode cl b h) \<noteq> Continue))"
proof
  assume "\<exists>res. consume_messages decode cl b limit w = Some res"
  then obtain r0 fin where loop: "consume_while decode cl b limit (consumer_start w) = Some (r0, fin)"
    by (auto simp: consume_messages_def split: option.splits)
  from consume_while_returns [OF loop] obtain k h where
    "consume_steps k decode cl b limit (consumer_start w) = Some h"
    "\<not> n_consumed_batches h < limit \<or> fst (consume_iteration decode cl b h) \<noteq> Continue"
    by auto
  then show "\<exists>k h. consume_steps k decode cl b limit (consumer_start w) = Some h
          \<and> (\<not> n_consumed_batches h < limit \<or> fst (consume_iteration decode cl b h) \<noteq> Continue)"
    by blast
next
  assume "\<exists>k h. consume_steps k decode cl b limit (consumer_start w) = Some h
          \<and> (\<not> n_consumed_batches h < limit \<or> fst (consume_iteration decode cl b h) \<noteq> Continue)"
  then obtain k h where steps: "consume_steps k decode cl b limit (consumer_start w) = Some h"
    and stop: "\<not> n_consumed_batches h < limit \<or> fst (consume_iteration decode cl b h) \<noteq> Continue"
    by blast
  obtain fl s' where it: "consume_iteration decode cl b h = (fl, s')"
    by (cases "consume_iteration decode cl b h")
  from stop it have "\<exists>res. consume_while decode cl b limit (consumer_start w) = Some res"
    by (subst consume_while_head [OF steps]) (cases fl; simp)
  then show "\<exists>res. consume_messages decode cl b limit w = Some res"
    by (auto simp: consume_messages_def split: sum.splits)
qed

text \<open>Pacing of one iteration of the producer, for every batch size.\<close>

lemma produce_iteration_pacing:
  assumes "produce_iteration cl b s = (r, s')"
  shows "\<exists>evs. trace s' = trace s @ evs
    \<and> (r = Inr () \<longrightarrow> pacing False evs = Some False \<and> last evs = Sleep interval)
    \<and> pacing False evs \<noteq> None"
proof (cases "b = 0")
  case True
  with assms have "trace s' = trace s @ []" and "r \<noteq> Inr ()"
    by (auto simp: produce_iteration_def split: prod.splits)
  then show ?thesis by (intro exI [of _ "[]"]) simp
next
  case False
  obtain cid messages where fill: "fill_batch (nat b) (current_id s) [] = (cid, messages)"
    by (cases "fill_batch (nat b) (current_id s) []")
  obtain res c' where send: "send_messages cl STREAM_NAME TOPIC_NAME PARTITION_ID messages (client s) = (res, c')"
    by (cases "send_messages cl STREAM_NAME TOPIC_NAME PARTITION_ID messages (client s)")
  show ?thesis
  proof (cases res)
    case (Inr u)
    with assms False fill send show ?thesis
      by (auto simp: produce_iteration_def step_defs)
  next
    case (Inl error)
    with assms False fill send show ?thesis
      by (cases "is_Exception error") (auto simp: produce_iteration_def step_defs send_handler_def)
  qed
qed

lemma produce_steps_pacing:
  "produce_steps k cl b limit s = Some s' \<Longrightarrow> pacing p (trace s) = Some False \<Longrightarrow>
     pacing p (trace s') = Some False"
proof (induction k arbitrary: s)
  case 0
  then show ?case by simp
next
  case (Suc k)
  from Suc.prems(1) obtain s1 where it: "produce_iteration cl b s = (Inr (), s1)"
    and rest: "produce_steps k cl b limit s1 = Some s'"
    by (auto split: if_splits prod.splits sum.splits)
  from produce_iteration_pacing [OF it] Suc.prems(2) have "pacing p (trace s1) = Some False"
    by (auto simp: pacing_append)
  with rest show ?case by (rule Suc.IH)
qed

lemma produce_messages_pacing:
  "produce_messages cl b limit w = Some (r, s) \<Longrightarrow>
     \<exists>s'. produce_while cl b limit (producer_start w) = Some (r, s')
       \<and> pacing p (trace s) = pacing p (trace s')"
  by (auto simp: produce_messages_def step_defs pacing_append
        split: option.splits sum.splits)

lemma consume_messages_pacing:
  "consume_messages decode cl b limit w = Some (r, s) \<Longrightarrow>
     \<exists>s'. consume_while decode cl b limit (consumer_start w) = Some (r, s')
       \<and> pacing p (trace s) = pacing p (trace s')"
  by (auto simp: consume_messages_def step_defs pacing_append
        split: option.splits sum.splits)

subsection \<open>From the producer's batch to the consumer's lines\<close>

text \<open>The payloads that the producer builds are ASCII.\<close>

lemma digit_char_ascii: "d < 10 \<Longrightarrow> (of_char (digit_char d) :: nat) < 128"
proof -
  assume "d < 10"
  then have "d \<in> {0, 1, 2, 3, 4, 5, 6, 7, 8, 9}" by auto
  then show ?thesis by (auto simp: digit_char_def)
qed

lemma is_ascii_append: "is_ascii (xs @ ys) = (is_ascii xs \<and> is_ascii ys)"
  by (simp add: is_ascii_def)

lemma is_ascii_str_nat: "is_ascii (str_nat n)"
proof (induction n rule: str_nat.induct)
  case (1 n)
  show ?case
  proof (cases "n < 10")
    case True
    then show ?thesis by (simp add: str_nat_small is_ascii_def digit_char_ascii)
  next
    case False
    with "1.IH" have "is_ascii (str_nat (n div 10))" by simp
    moreover have "is_ascii [digit_char (n mod 10)]"
      by (simp add: is_ascii_def digit_char_ascii)
    ultimately show ?thesis using False by (simp add: str_nat_large is_ascii_append)
  qed
qed

lemma is_ascii_payload: "is_ascii (message_text (payload_of i))"
  using is_ascii_str_nat [of "nat i"] is_ascii_str_nat [of "nat (- i)"]
  by (simp add: payload_of_def str_int_def is_ascii_def)

text \<open>
  A poll that returns the texts of a list of messages, in the order of the list: every
  one is handled, in that order.
\<close>

lemma handling_of_batch:
  "map message_payload msgs = map message_text batch \<Longrightarrow>
   \<forall>m \<in> set batch. decode (message_text m) = Inr (message_text m) \<Longrightarrow>
     list_all (decodes decode) msgs
     \<and> map (handling_of decode) msgs
         = map (\<lambda>(msg, m). handling_line (message_offset msg) (message_text m)) (zip msgs batch)"
proof (induction msgs arbitrary: batch)
  case Nil
  then show ?case by simp
next
  case (Cons msg rest)
  from Cons.prems(1) obtain m others where batch: "batch = m # others"
    and hd: "message_payload msg = message_text m"
    and tl: "map message_payload rest = map message_text others"
    by (cases batch) auto
  from Cons.prems(2) batch have m: "decode (message_text m) = Inr (message_text m)"
    and others: "\<forall>m \<in> set others. decode (message_text m) = Inr (message_text m)"
    by simp_all
  from Cons.IH [OF tl others] hd m batch show ?case
    by (simp add: decodes_def handling_of_def)
qed

lemma consume_iteration_batch:
  assumes poll: "poll_messages cl STREAM_NAME TOPIC_NAME PARTITION_ID Next b True (client s) = (Inr msgs, c')"
    and returned: "map message_payload msgs = map message_text batch"
    and nonempty: "batch \<noteq> []"
    and decoded: "\<forall>m \<in> set batch. decode (message_text m) = Inr (message_text m)"
  shows "consume_iteration decode cl b s =
    (Continue, s\<lparr>client := c',
       trace := trace s @
         [Log DEBUG ''Polling for messages...'',
          PollMessages STREAM_NAME TOPIC_NAME PARTITION_ID Next b True,
          Polled msgs]
         @ map (\<lambda>(msg, m). handling_line (message_offset msg) (message_text m)) (zip msgs batch)
         @ [Sleep interval],
       offset := offset s + int (length msgs),
       n_consumed_batches := n_consumed_batches s + 1\<rparr>)"
proof -
  from returned nonempty have "msgs \<noteq> []" by auto
  moreover note handling_of_batch [OF returned decoded]
  ultimately show ?thesis using consume_iteration_handled [OF poll, of decode] by simp
qed

text \<open>The in-memory broker: a send appends to the partition, a poll reads it from the cursor.\<close>

lemma memory_client_send:
  "send_fault (sends c) = None \<Longrightarrow>
     send_messages (memory_client send_fault lookup_fault) stream topic partitioning messages c
       = (Inr (), c\<lparr>partition := partition c @ messages, sends := Suc (sends c)\<rparr>)"
  by (simp add: memory_client_def)

lemma memory_poller_poll:
  "partition c = stored @ batch \<Longrightarrow> int (length batch) = b \<Longrightarrow>
     poll_messages memory_poller stream topic partition_id polling_strategy b True (length stored, c)
       = (Inr (map (\<lambda>(i, m). \<lparr>message_offset = length stored + i, message_payload = message_text m\<rparr>)
                 (zip [0..<length batch] batch)),
          (length stored + length batch, c))"
  by (auto simp: memory_poller_def Let_def)

lemma memory_poller_payloads:
  "map message_payload
     (map (\<lambda>(i, m). \<lparr>message_offset = cursor + i, message_payload = message_text m\<rparr>)
        (zip [0..<length batch] batch))
     = map message_text batch"
  by (induction batch rule: rev_induct) simp_all

lemma memory_poller_lines:
  "map (\<lambda>(msg, m). handling_line (message_offset msg) (message_text m))
     (zip (map (\<lambda>(i, m). \<lparr>message_offset = cursor + i, message_payload = message_text m\<rparr>)
             (zip [0..<length batch] batch)) batch)
     = map (\<lambda>(i, m). handling_line (cursor + i) (message_text m)) (zip [0..<length batch] batch)"
  by (induction batch rule: rev_induct) simp_all

section \<open>The claims\<close>

subsection \<open>C1: the producer's batches\<close>

text \<open>
  C1, as amended. The claim promises exactly \<open>n\<close> send calls for every batch size and
  batch count. The loop counts successful sends only, so a send that raises adds one more
  call, and batch size 0 stops the run with \<open>ZeroDivisionError\<close> before the first
  send. What holds for every batch size \<open>b \<ge> 1\<close> and every bound \<open>n\<close>: the \<open>k\<close>-th
  send call of a run carries the \<open>b\<close> payloads \<open>message-((k-1)*b+1)\<close> to
  \<open>message-(k*b)\<close> in this order; a run that returns has made \<open>n\<close> send calls (none
  for \<open>n \<le> 0\<close>) plus one for each send that raised; when no send raises the run
  returns after exactly \<open>n\<close> send calls, whose payloads together are \<open>message-1\<close> to
  \<open>message-(n*b)\<close> in increasing order; and when every send raises an \<open>Exception\<close> and
  \<open>n \<ge> 1\<close>, the run does not return.
\<close>

theorem produce_messages_batches:
  assumes b: "0 < b"
  shows "(\<forall>r s. produce_messages cl b n w = Some (r, s) \<longrightarrow>
            (\<exists>k. sent_batches (trace s) = sent_batches (trace w) @ map (expected_batch b) [1 .. int k]
               \<and> (r = Inr () \<longrightarrow>
                    int k = max n 0 + int (length (raised (trace s))) - int (length (raised (trace w))))))
       \<and> ((\<forall>ms c. fst (send_messages cl STREAM_NAME TOPIC_NAME PARTITION_ID ms c) = Inr ()) \<longrightarrow>
            (\<exists>s. produce_messages cl b n w = Some (Inr (), s)
               \<and> sent_batches (trace s) = sent_batches (trace w) @ map (expected_batch b) [1 .. n]
               \<and> raised (trace s) = raised (trace w)))
       \<and> ((\<forall>ms c. \<exists>e c'. send_messages cl STREAM_NAME TOPIC_NAME PARTITION_ID ms c = (Inl e, c')
                    \<and> is_Exception e) \<and> 0 < n \<longrightarrow>
            produce_messages cl b n w = None)
       \<and> (\<forall>k. length (expected_batch b k) = nat b)
       \<and> concat (map (expected_batch b) [1 .. n]) = map payload_of [1 .. n * b]"
proof (intro conjI allI impI)
  fix r s
  assume run: "produce_messages cl b n w = Some (r, s)"
  from produce_messages_result [OF run] obtain s' where
    loop: "produce_while cl b n (producer_start w) = Some (r, s')"
    and same: "sent_batches (trace s) = sent_batches (trace s')"
      "raised (trace s) = raised (trace s')" by blast
  from produce_while_returns [OF loop] obtain k s'' where
    steps: "produce_steps k cl b n (producer_start w) = Some s''"
    and fin: "(r = Inr () \<and> s' = s'' \<and> \<not> n_sent_batches s'' < n)
       \<or> (\<exists>error. r = Inl error \<and> n_sent_batches s'' < n
            \<and> produce_iteration cl b s'' = (Inl error, s'))" by blast
  note st = produce_steps_state [OF b steps, unfolded producer_start_simps, simplified]
  from st have sent: "sent_batches (trace s'') = sent_batches (trace w) @ map (expected_batch b) [1 .. int k]"
    by (simp add: expected_batches_eq)
  from fin show "\<exists>k. sent_batches (trace s) = sent_batches (trace w) @ map (expected_batch b) [1 .. int k]
               \<and> (r = Inr () \<longrightarrow>
                    int k = max n 0 + int (length (raised (trace s))) - int (length (raised (trace w))))"
  proof
    assume ret: "r = Inr () \<and> s' = s'' \<and> \<not> n_sent_batches s'' < n"
    from st ret have "n_sent_batches s'' = max n 0" by (auto simp: max_def)
    with st have "int k = max n 0 + int (length (raised (trace s''))) - int (length (raised (trace w)))"
      by simp
    with ret same have cnt: "int k = max n 0 + int (length (raised (trace s))) - int (length (raised (trace w)))"
      by simp
    from ret sent same have "sent_batches (trace s) = sent_batches (trace w) @ map (expected_batch b) [1 .. int k]"
      by simp
    with cnt show ?thesis by blast
  next
    assume "\<exists>error. r = Inl error \<and> n_sent_batches s'' < n
            \<and> produce_iteration cl b s'' = (Inl error, s')"
    then obtain error where r: "r = Inl error"
      and it: "produce_iteration cl b s'' = (Inl error, s')" by blast
    from produce_iteration_any [OF b it] st
    have "sent_batches (trace s') = sent_batches (trace s'') @ [expected_batch b (int k + 1)]"
      by (simp add: expected_batch_eq)
    moreover have "[1 .. int (Suc k)] = [1 .. int k] @ [int k + 1]"
      by (subst upto_rec2) simp_all
    ultimately have "sent_batches (trace s) = sent_batches (trace w) @ map (expected_batch b) [1 .. int (Suc k)]"
      using sent same by simp
    with r show ?thesis by blast
  qed
next
  assume ok: "\<forall>ms c. fst (send_messages cl STREAM_NAME TOPIC_NAME PARTITION_ID ms c) = Inr ()"
  from produce_steps_all_sent [OF b ok refl, of n "producer_start w"]
  obtain s' where steps: "produce_steps (nat n) cl b n (producer_start w) = Some s'"
    and stop: "\<not> n_sent_batches s' < n" and quiet: "raised (trace s') = raised (trace w)"
    by (auto simp: producer_start_simps)
  from produce_while_steps [OF steps] produce_while_at_limit [OF stop]
  have loop: "produce_while cl b n (producer_start w) = Some (Inr (), s')" by simp
  note st = produce_steps_state [OF b steps, unfolded producer_start_simps, simplified]
  have idx: "[1 .. int (nat n)] = [1 .. n]" by (cases "0 \<le> n") simp_all
  from st have "sent_batches (trace s') = sent_batches (trace w) @ map (expected_batch b) [1 .. n]"
    by (simp add: expected_batches_eq [symmetric] idx)
  with loop quiet show "\<exists>s. produce_messages cl b n w = Some (Inr (), s)
               \<and> sent_batches (trace s) = sent_batches (trace w) @ map (expected_batch b) [1 .. n]
               \<and> raised (trace s) = raised (trace w)"
    by (simp add: produce_messages_def step_defs sent_batches_append raised_append)
next
  assume "(\<forall>ms c. \<exists>e c'. send_messages cl STREAM_NAME TOPIC_NAME PARTITION_ID ms c = (Inl e, c')
                    \<and> is_Exception e) \<and> 0 < n"
  then have bad: "\<forall>ms c. \<exists>e c'. send_messages cl STREAM_NAME TOPIC_NAME PARTITION_ID ms c = (Inl e, c')
                    \<and> is_Exception e" and n: "0 < n" by blast+
  from n have "n_sent_batches (producer_start w) < n" by (simp add: producer_start_simps)
  from produce_while_all_failed [OF b bad this]
  show "produce_messages cl b n w = None" by (simp add: produce_messages_def)
next
  fix k show "length (expected_batch b k) = nat b" by (rule length_expected_batch)
next
  show "concat (map (expected_batch b) [1 .. n]) = map payload_of [1 .. n * b]"
    by (rule concat_expected_batches [OF b])
qed

text \<open>The theorem at \<open>b = 2\<close>: a client that never fails, and one whose first send fails.\<close>

theorem produce_messages_batches_witness:
  "(0::int) < 2
   \<and> (\<forall>ms c. fst (send_messages (memory_client no_fault None)
                   STREAM_NAME TOPIC_NAME PARTITION_ID ms c) = Inr ())
   \<and> (\<exists>s. produce_messages (memory_client no_fault None) 2 2 empty_broker = Some (Inr (), s)
         \<and> sent_batches (trace s)
             = [[Message ''message-1'', Message ''message-2''],
                [Message ''message-3'', Message ''message-4'']]
         \<and> raised (trace s) = [])
   \<and> (\<exists>r s k. produce_messages (memory_client first_send_fails None) 2 1 empty_broker = Some (r, s)
         \<and> sent_batches (trace s) = map (expected_batch 2) [1 .. int k]
         \<and> int k = 1 + int (length (raised (trace s))))
   \<and> (\<forall>ms c. \<exists>e c'. send_messages (memory_client every_send_fails None)
                   STREAM_NAME TOPIC_NAME PARTITION_ID ms c = (Inl e, c') \<and> is_Exception e)
   \<and> produce_messages (memory_client every_send_fails None) 2 1 empty_broker = None"
proof -
  have b: "(0::int) < 2" by simp
  have ok: "\<forall>ms c. fst (send_messages (memory_client no_fault None)
                   STREAM_NAME TOPIC_NAME PARTITION_ID ms c) = Inr ()"
    by (simp add: memory_client_def no_fault_def)
  have batches: "map (expected_batch 2) [1 .. 2]
      = [[Message ''message-1'', Message ''message-2''],
         [Message ''message-3'', Message ''message-4'']]"
    by (simp add: expected_batch_def payload_of_def str_defs upto.simps)
  have quiet: "sent_batches (trace empty_broker) = []" "raised (trace empty_broker) = []"
    by (simp_all add: empty_broker_def)
  note inst = produce_messages_batches [OF b, of _ _ empty_broker]
  from inst [of "memory_client no_fault None" 2] ok
  have first: "\<exists>s. produce_messages (memory_client no_fault None) 2 2 empty_broker = Some (Inr (), s)
         \<and> sent_batches (trace s)
             = [[Message ''message-1'', Message ''message-2''],
                [Message ''message-3'', Message ''message-4'']]
         \<and> raised (trace s) = []"
    by (simp only: batches quiet append_Nil) blast
  have "\<exists>r s. produce_messages (memory_client first_send_fails None) 2 1 empty_broker = Some (r, s) \<and> r = Inr ()"
    by (simp add: producer_defs double_defs step_defs config_defs str_defs)
  then obtain r s where run: "produce_messages (memory_client first_send_fails None) 2 1 empty_broker = Some (r, s)"
    and r: "r = Inr ()" by blast
  from inst [of "memory_client first_send_fails None" 1] run r
  have "\<exists>k. sent_batches (trace s) = map (expected_batch 2) [1 .. int k]
         \<and> int k = 1 + int (length (raised (trace s)))"
    by (simp add: quiet)
  with run have second: "\<exists>r s k. produce_messages (memory_client first_send_fails None) 2 1 empty_broker = Some (r, s)
         \<and> sent_batches (trace s) = map (expected_batch 2) [1 .. int k]
         \<and> int k = 1 + int (length (raised (trace s)))" by blast
  have bad: "\<forall>ms c. \<exists>e c'. send_messages (memory_client every_send_fails None)
                   STREAM_NAME TOPIC_NAME PARTITION_ID ms c = (Inl e, c') \<and> is_Exception e"
    by (simp add: memory_client_def every_send_fails_def)
  from inst [of "memory_client every_send_fails None" 1] bad
  have third: "produce_messages (memory_client every_send_fails None) 2 1 empty_broker = None"
    by simp
  from b ok first second bad third show ?thesis by blast
qed

text \<open>
  C1 as stated fails: with \<open>n = 1\<close> and \<open>b = 1\<close>, a client whose first send raises
  gets two send calls where the claim promises the one batch \<open>message-1\<close>; a client
  whose every send raises keeps the run from returning; and with \<open>b = 0\<close> the run
  raises before any send.
\<close>

theorem produce_messages_counterexample:
  "map_option (sent_batches \<circ> trace \<circ> snd)
     (produce_messages (memory_client first_send_fails None) 1 1 empty_broker)
     = Some [[Message ''message-1''], [Message ''message-2'']]
   \<and> map (expected_batch 1) [1 .. 1] = [[Message ''message-1'']]
   \<and> produce_messages (memory_client every_send_fails None) 1 1 empty_broker = None
   \<and> map_option fst (produce_messages (memory_client no_fault None) 0 1 empty_broker)
     = Some (Inl (Exn ''ZeroDivisionError'' ''integer division or modulo by zero''))
   \<and> map_option (sent_batches \<circ> trace \<circ> snd)
     (produce_messages (memory_client no_fault None) 0 1 empty_broker) = Some []"
proof -
  have two: "map_option (sent_batches \<circ> trace \<circ> snd)
     (produce_messages (memory_client first_send_fails None) 1 1 empty_broker)
     = Some [[Message ''message-1''], [Message ''message-2'']]"
    and one: "map (expected_batch 1) [1 .. 1] = [[Message ''message-1'']]"
    and zero: "map_option fst (produce_messages (memory_client no_fault None) 0 1 empty_broker)
     = Some (Inl (Exn ''ZeroDivisionError'' ''integer division or modulo by zero''))"
      "map_option (sent_batches \<circ> trace \<circ> snd)
     (produce_messages (memory_client no_fault None) 0 1 empty_broker) = Some []"
    by (simp_all add: producer_defs double_defs step_defs config_defs str_defs
          expected_batch_def payload_of_def)
  have bad: "\<forall>ms c. \<exists>e c'. send_messages (memory_client every_send_fails None)
      STREAM_NAME TOPIC_NAME PARTITION_ID ms c = (Inl e, c') \<and> is_Exception e"
    by (simp add: memory_client_def every_send_fails_def)
  have "produce_while (memory_client every_send_fails None) 1 1 (producer_start empty_broker) = None"
    by (rule produce_while_all_failed [OF _ bad]) (simp_all add: producer_start_simps)
  then have never: "produce_messages (memory_client every_send_fails None) 1 1 empty_broker = None"
    by (simp add: produce_messages_def)
  from two one never zero show ?thesis by blast
qed

subsection \<open>C2: the consumer's offset\<close>

text \<open>
  C2. In every iteration of the consumer's loop the poll is made with auto-commit on;
  when it returns messages, \<open>offset\<close> grows by their number, whatever happens to them
  afterwards, and when it returns none, \<open>offset\<close> stays.
\<close>

theorem cursor_advances_by_count:
  assumes "poll_messages cl STREAM_NAME TOPIC_NAME PARTITION_ID Next b True (client s) = (Inr msgs, c')"
  shows "offset (snd (consume_iteration decode cl b s)) = offset s + int (length msgs)
    \<and> (msgs = [] \<longrightarrow> offset (snd (consume_iteration decode cl b s)) = offset s)
    \<and> PollMessages STREAM_NAME TOPIC_NAME PARTITION_ID Next b True
        \<in> set (since s (snd (consume_iteration decode cl b s)))"
proof -
  obtain fl s' where it: "consume_iteration decode cl b s = (fl, s')"
    by (cases "consume_iteration decode cl b s")
  from consume_iteration_any [OF assms it]
  have off: "offset s' = offset s + int (length msgs)" by simp
  have "PollMessages STREAM_NAME TOPIC_NAME PARTITION_ID Next b True \<in> set (since s s')"
  proof (cases "msgs = []")
    case True
    with assms have "poll_messages cl STREAM_NAME TOPIC_NAME PARTITION_ID Next b True (client s) = (Inr [], c')"
      by simp
    from consume_iteration_empty [OF this, of decode] it show ?thesis
      by (auto simp: since_def)
  next
    case False
    show ?thesis
    proof (cases "list_all (decodes decode) msgs")
      case True
      from consume_iteration_handled [OF assms False True] it show ?thesis
        by (auto simp: since_def)
    next
      case undecoded: False
      from consume_iteration_undecoded [OF assms undecoded refl] it show ?thesis
        by (auto simp: since_def)
    qed
  qed
  with off it show ?thesis by simp
qed

text \<open>The theorem at a poll that returns two messages, and at one that returns none.\<close>

theorem cursor_advances_by_count_witness:
  "poll_messages scripted_client STREAM_NAME TOPIC_NAME PARTITION_ID Next 10 True
     (client (consumer_start (script
        [Inr [\<lparr>message_offset = 0, message_payload = ''message-1''\<rparr>,
              \<lparr>message_offset = 1, message_payload = ''message-2''\<rparr>]])))
     = (Inr [\<lparr>message_offset = 0, message_payload = ''message-1''\<rparr>,
             \<lparr>message_offset = 1, message_payload = ''message-2''\<rparr>], [])
   \<and> offset (snd (consume_iteration decode_ascii scripted_client 10 (consumer_start (script
        [Inr [\<lparr>message_offset = 0, message_payload = ''message-1''\<rparr>,
              \<lparr>message_offset = 1, message_payload = ''message-2''\<rparr>]])))) = 2
   \<and> poll_messages scripted_client STREAM_NAME TOPIC_NAME PARTITION_ID Next 10 True
     (client (consumer_start (script []))) = (Inr [], [])
   \<and> offset (snd (consume_iteration decode_ascii scripted_client 10 (consumer_start (script [])))) = 0"
proof -
  have p1: "poll_messages scripted_client STREAM_NAME TOPIC_NAME PARTITION_ID Next 10 True
     (client (consumer_start (script
        [Inr [\<lparr>message_offset = 0, message_payload = ''message-1''\<rparr>,
              \<lparr>message_offset = 1, message_payload = ''message-2''\<rparr>]])))
     = (Inr [\<lparr>message_offset = 0, message_payload = ''message-1''\<rparr>,
             \<lparr>message_offset = 1, message_payload = ''message-2''\<rparr>], [])"
    by (simp add: consumer_start_simps scripted_client_def script_def)
  have p2: "poll_messages scripted_client STREAM_NAME TOPIC_NAME PARTITION_ID Next 10 True
     (client (consumer_start (script []))) = (Inr [], [])"
    by (simp add: consumer_start_simps scripted_client_def script_def)
  from cursor_advances_by_count [OF p1, of decode_ascii]
  have "offset (snd (consume_iteration decode_ascii scripted_client 10 (consumer_start (script
        [Inr [\<lparr>message_offset = 0, message_payload = ''message-1''\<rparr>,
              \<lparr>message_offset = 1, message_payload = ''message-2''\<rparr>]])))) = 2"
    by (simp add: consumer_start_simps)
  moreover from cursor_advances_by_count [OF p2, of decode_ascii]
  have "offset (snd (consume_iteration decode_ascii scripted_client 10 (consumer_start (script [])))) = 0"
    by (simp add: consumer_start_simps)
  ultimately show ?thesis using p1 p2 by blast
qed


subsection \<open>C3: a failed provisioning\<close>

text \<open>
  C3, as amended. The claim lets a failed provisioning stop the run before
  \<open>produce_messages\<close>. Both \<open>try\<close> blocks of \<open>init_system\<close> catch \<open>Exception\<close>, log it
  and end normally, and \<open>main\<close> calls \<open>produce_messages\<close> unconditionally. What holds:
  when a stream or topic call of \<open>init_system\<close> raises an \<open>Exception\<close>, the error is
  logged at level \<open>ERROR\<close> and does not leave \<open>init_system\<close>; when \<open>init_system\<close>
  returns, the topic step has been made, and \<open>main\<close> goes on with \<open>produce_messages\<close>
  from the state that \<open>init_system\<close> left: the run proceeds past the topology step.
\<close>

theorem topology_failure_run_proceeds:
  assumes conn: "connect cl (client w) = (Inr (), c1)"
    and login: "login_user cl ''messenger'' ''messenger'' c1 = (Inr (), c2)"
    and init: "init_system cl \<lparr>client = c2, trace = trace w @
              [Log INFO ''Connecting to MessengerClient'', Connect,
               Log INFO ''Connected. Logging in user...'', LoginUser ''messenger'' ''messenger'',
               Log INFO ''Logged in.'']\<rparr> = (r, w')"
    and failed: "error \<in> set (raised (since w w'))"
    and exn: "is_Exception error"
  shows "Log ERROR (message error) \<in> set (since w w')
    \<and> (\<forall>e. r = Inl e \<longrightarrow> \<not> is_Exception e)
    \<and> (r = Inr () \<longrightarrow> GetTopic STREAM_NAME TOPIC_NAME \<in> set (since w w'))
    \<and> main cl b limit w =
        (case r of
           Inl e \<Rightarrow> Some (Inl e, w')
         | Inr u \<Rightarrow> map_option (\<lambda>(r, s). (r, world.truncate s)) (produce_messages cl b limit w'))"
proof -
  from init_system_trace [OF init] obtain evs where
    tr: "trace w' = trace w @
              [Log INFO ''Connecting to MessengerClient'', Connect,
               Log INFO ''Connected. Logging in user...'', LoginUser ''messenger'' ''messenger'',
               Log INFO ''Logged in.''] @ evs"
    and topic: "r = Inr () \<longrightarrow> GetTopic STREAM_NAME TOPIC_NAME \<in> set evs"
    and logged: "\<forall>e \<in> set (raised evs). is_Exception e \<longrightarrow> Log ERROR (message e) \<in> set evs"
    and kept: "\<forall>e. r = Inl e \<longrightarrow> \<not> is_Exception e" by auto
  from tr have new: "since w w' =
              [Log INFO ''Connecting to MessengerClient'', Connect,
               Log INFO ''Connected. Logging in user...'', LoginUser ''messenger'' ''messenger'',
               Log INFO ''Logged in.''] @ evs"
    by (rule since_append)
  from failed have "error \<in> set (raised evs)" by (simp add: new)
  with logged exn have "Log ERROR (message error) \<in> set evs" by blast
  then have "Log ERROR (message error) \<in> set (since w w')" by (simp add: new)
  moreover from topic have "r = Inr () \<longrightarrow> GetTopic STREAM_NAME TOPIC_NAME \<in> set (since w w')"
    by (simp add: new)
  moreover from main_after_login [OF conn login] init
  have "main cl b limit w =
        (case r of
           Inl e \<Rightarrow> Some (Inl e, w')
         | Inr u \<Rightarrow> map_option (\<lambda>(r, s). (r, world.truncate s)) (produce_messages cl b limit w'))"
    by (simp split: sum.splits)
  ultimately show ?thesis using kept by blast
qed

text \<open>The theorem at a broker whose lookups all fail.\<close>

theorem topology_failure_run_proceeds_witness:
  "connect (memory_client no_fault (Some (Exn ''ConnectionError'' ''broker unreachable'')))
       (client empty_broker) = (Inr (), client empty_broker)
   \<and> login_user (memory_client no_fault (Some (Exn ''ConnectionError'' ''broker unreachable'')))
       ''messenger'' ''messenger'' (client empty_broker) = (Inr (), client empty_broker)
   \<and> is_Exception (Exn ''ConnectionError'' ''broker unreachable'')
   \<and> (\<exists>w'. init_system (memory_client no_fault (Some (Exn ''ConnectionError'' ''broker unreachable'')))
          \<lparr>client = client empty_broker, trace = trace empty_broker @
              [Log INFO ''Connecting to MessengerClient'', Connect,
               Log INFO ''Connected. Logging in user...'', LoginUser ''messenger'' ''messenger'',
               Log INFO ''Logged in.'']\<rparr> = (Inr (), w')
        \<and> Exn ''ConnectionError'' ''broker unreachable'' \<in> set (raised (since empty_broker w'))
        \<and> Log ERROR ''broker unreachable'' \<in> set (since empty_broker w')
        \<and> GetTopic STREAM_NAME TOPIC_NAME \<in> set (since empty_broker w')
        \<and> main (memory_client no_fault (Some (Exn ''ConnectionError'' ''broker unreachable''))) 1 1 empty_broker
            = map_option (\<lambda>(r, s). (r, world.truncate s))
                (produce_messages (memory_client no_fault (Some (Exn ''ConnectionError'' ''broker unreachable''))) 1 1 w'))"
proof -
  let ?cl = "memory_client no_fault (Some (Exn ''ConnectionError'' ''broker unreachable''))"
  have conn: "connect ?cl (client empty_broker) = (Inr (), client empty_broker)"
    by (simp add: memory_client_def)
  have login: "login_user ?cl ''messenger'' ''messenger'' (client empty_broker) = (Inr (), client empty_broker)"
    by (simp add: memory_client_def)
  have exn: "is_Exception (Exn ''ConnectionError'' ''broker unreachable'')" by simp
  have "\<exists>w'. init_system ?cl \<lparr>client = client empty_broker, trace = trace empty_broker @
              [Log INFO ''Connecting to MessengerClient'', Connect,
               Log INFO ''Connected. Logging in user...'', LoginUser ''messenger'' ''messenger'',
               Log INFO ''Logged in.'']\<rparr> = (Inr (), w')
        \<and> Exn ''ConnectionError'' ''broker unreachable'' \<in> set (raised (since empty_broker w'))"
    by (simp add: init_defs step_defs double_defs config_defs since_def)
  then obtain w' where init: "init_system ?cl \<lparr>client = client empty_broker, trace = trace empty_broker @
              [Log INFO ''Connecting to MessengerClient'', Connect,
               Log INFO ''Connected. Logging in user...'', LoginUser ''messenger'' ''messenger'',
               Log INFO ''Logged in.'']\<rparr> = (Inr (), w')"
    and failed: "Exn ''ConnectionError'' ''broker unreachable'' \<in> set (raised (since empty_broker w'))"
    by blast
  from topology_failure_run_proceeds [OF conn login init failed exn, of 1 1]
  have "Log ERROR ''broker unreachable'' \<in> set (since empty_broker w')
        \<and> GetTopic STREAM_NAME TOPIC_NAME \<in> set (since empty_broker w')
        \<and> main ?cl 1 1 empty_broker
            = map_option (\<lambda>(r, s). (r, world.truncate s)) (produce_messages ?cl 1 1 w')"
    by simp
  with conn login exn init failed show ?thesis by blast
qed

text \<open>
  C3 as stated fails: with a broker whose stream and topic lookups raise, both errors
  are logged and the run goes on to send its batch.
\<close>

theorem topology_failure_counterexample:
  "map_option (trace \<circ> snd)
     (main (memory_client no_fault (Some (Exn ''ConnectionError'' ''broker unreachable''))) 1 1
        empty_broker)
   = Some
      [Log INFO ''Connecting to MessengerClient'', Connect,
       Log INFO ''Connected. Logging in user...'', LoginUser ''messenger'' ''messenger'',
       Log INFO ''Logged in.'',
       Log INFO ''Creating stream with name sample-stream...'',
       GetStream ''sample-stream'', Raised (Exn ''ConnectionError'' ''broker unreachable''),
       Log ERROR ''Error creating stream: broker unreachable'',
       Log ERROR ''broker unreachable'',
       Log INFO ''Creating topic sample-topic in stream sample-stream'',
       GetTopic ''sample-stream'' ''sample-topic'',
       Raised (Exn ''ConnectionError'' ''broker unreachable''),
       Log ERROR ''Error creating topic broker unreachable'',
       Log ERROR ''broker unreachable'',
       Log INFO ''Messages will be sent to stream: sample-stream, topic: sample-topic, partition: 1 with interval 500.0 ms.'',
       Log INFO ''Attempting to send batch of 1 messages. Batch ID: 1'',
       SendMessages ''sample-stream'' ''sample-topic'' 1 [Message ''message-1''],
       Log INFO ''Successfully sent batch of 1 messages. Batch ID: 1'',
       Sleep (1 / 2),
       Log INFO ''Sent 1 batches of messages, exiting.'']"
  by (simp add: main_def init_defs producer_defs step_defs double_defs config_defs str_defs)

subsection \<open>C4: a failed send\<close>

text \<open>
  C4. Let the send of batch \<open>k + 1\<close> fail in a run that has made \<open>k\<close> iterations. The
  iteration ends at the loop head with the count of sent batches unchanged and still below
  the bound, and the loop makes its next iteration from there: that iteration sends batch
  \<open>k + 2\<close>, with the identifiers \<open>(k+1)*b+1 .. (k+2)*b\<close> as after a success and none of
  them from the failed batch, and then the loop is at its head \<open>k + 2\<close>, or the exception
  of that send has left it. In every run that returns, the failed batch is followed at
  once by batch \<open>k + 2\<close> and is sent nowhere else in the run; and the run returns
  exactly when some loop head has the count at the bound or an iteration whose
  exception leaves the loop.
\<close>

theorem failed_send_isolated:
  assumes b: "0 < b"
    and steps: "produce_steps k cl b limit (producer_start w) = Some s"
    and guard: "n_sent_batches s < limit"
    and fail: "send_messages cl STREAM_NAME TOPIC_NAME PARTITION_ID
                 (expected_batch b (int k + 1)) (client s) = (Inl error, c')"
    and exn: "is_Exception error"
  shows "\<exists>s1. produce_steps (Suc k) cl b limit (producer_start w) = Some s1
     \<and> produce_while cl b limit (producer_start w) = produce_while cl b limit s1
     \<and> n_sent_batches s1 = n_sent_batches s \<and> n_sent_batches s1 < limit
     \<and> client s1 = c'
     \<and> sent_batches (trace s1) = sent_batches (trace w) @ map (expected_batch b) [1 .. int k + 1]
     \<and> sent_batches (trace (snd (produce_iteration cl b s1)))
          = sent_batches (trace s1) @ [expected_batch b (int k + 2)]
     \<and> produce_while cl b limit (producer_start w) =
          (case produce_iteration cl b s1 of
             (Inl error, s2) \<Rightarrow> Some (Inl error, s2)
           | (Inr u, s2) \<Rightarrow> produce_while cl b limit s2)
     \<and> produce_steps (Suc (Suc k)) cl b limit (producer_start w) =
          (case produce_iteration cl b s1 of
             (Inl error, s2) \<Rightarrow> None
           | (Inr u, s2) \<Rightarrow> Some s2)
     \<and> expected_batch b (int k + 2) = map payload_of [(int k + 1) * b + 1 .. (int k + 2) * b]
     \<and> set (expected_batch b (int k + 2)) \<inter> set (expected_batch b (int k + 1)) = {}
     \<and> (\<forall>r final. produce_messages cl b limit w = Some (r, final) \<longrightarrow>
          (\<exists>K. int k + 2 \<le> K
             \<and> sent_batches (trace final) = sent_batches (trace w)
                 @ map (expected_batch b) [1 .. int k]
                 @ [expected_batch b (int k + 1), expected_batch b (int k + 2)]
                 @ map (expected_batch b) [int k + 3 .. K]
             \<and> expected_batch b (int k + 1) \<notin> set (map (expected_batch b) [1 .. int k])
             \<and> expected_batch b (int k + 1) \<notin> set (map (expected_batch b) [int k + 3 .. K])))
     \<and> ((\<exists>res. produce_messages cl b limit w = Some res)
          = (\<exists>j h. produce_steps j cl b limit (producer_start w) = Some h
               \<and> (\<not> n_sent_batches h < limit \<or> isl (fst (produce_iteration cl b h)))))"
proof -
  note st = produce_steps_state [OF b steps, unfolded producer_start_simps, simplified]
  from st have cid: "current_id s = b * int k" by simp
  from fail have fail': "send_messages cl STREAM_NAME TOPIC_NAME PARTITION_ID
      (map payload_of [current_id s + 1 .. current_id s + b]) (client s) = (Inl error, c')"
    by (simp add: cid expected_batch_eq)
  note it = produce_iteration_failed [OF b fail' exn]
  define s1 where "s1 = snd (produce_iteration cl b s)"
  from it have it1: "produce_iteration cl b s = (Inr (), s1)" by (simp add: s1_def)
  from produce_steps_snoc [OF steps guard it1]
  have steps1: "produce_steps (Suc k) cl b limit (producer_start w) = Some s1" .
  note st1 = produce_steps_state [OF b steps1, unfolded producer_start_simps, simplified]
  have idx: "[1 .. int (Suc k)] = [1 .. int k + 1]" by (simp add: add.commute)
  from st1 have sent1: "sent_batches (trace s1) = sent_batches (trace w) @ map (expected_batch b) [1 .. int k + 1]"
    using expected_batches_eq [of b "Suc k"] by (simp only: idx) simp
  from it it1 have same: "n_sent_batches s1 = n_sent_batches s" "client s1 = c'" by simp_all
  with guard have guard1: "n_sent_batches s1 < limit" by simp
  obtain r s2 where it2: "produce_iteration cl b s1 = (r, s2)" by (cases "produce_iteration cl b s1")
  from produce_iteration_any [OF b it2] st1
  have next_batch: "sent_batches (trace (snd (produce_iteration cl b s1)))
      = sent_batches (trace s1) @ [expected_batch b (int k + 2)]"
    using expected_batch_eq [of b "Suc k"] by (simp add: it2 algebra_simps)
  from guard1 have next_iteration: "produce_while cl b limit (producer_start w) =
          (case produce_iteration cl b s1 of
             (Inl error, s2) \<Rightarrow> Some (Inl error, s2)
           | (Inr u, s2) \<Rightarrow> produce_while cl b limit s2)"
    by (simp add: produce_while_head [OF steps1])
  have "produce_steps (Suc k + 1) cl b limit (producer_start w) =
          (case produce_iteration cl b s1 of
             (Inl error, s2) \<Rightarrow> None
           | (Inr u, s2) \<Rightarrow> Some s2)"
    using guard1 steps1 by (simp only: produce_steps_add) (simp split: prod.splits sum.splits)
  then have next_head: "produce_steps (Suc (Suc k)) cl b limit (producer_start w) =
          (case produce_iteration cl b s1 of
             (Inl error, s2) \<Rightarrow> None
           | (Inr u, s2) \<Rightarrow> Some s2)"
    by simp
  have ids: "expected_batch b (int k + 2) = map payload_of [(int k + 1) * b + 1 .. (int k + 2) * b]"
    by (simp add: expected_batch_def add.commute)
  from disjoint_expected_batches [OF b, of "int k"]
  have apart: "set (expected_batch b (int k + 2)) \<inter> set (expected_batch b (int k + 1)) = {}" by simp
  have once: "expected_batch b (int k + 1) \<notin> set (map (expected_batch b) [1 .. int k])"
    "expected_batch b (int k + 1) \<notin> set (map (expected_batch b) [int k + 3 .. K])" for K
  proof -
    show "expected_batch b (int k + 1) \<notin> set (map (expected_batch b) [1 .. int k])"
    proof
      assume "expected_batch b (int k + 1) \<in> set (map (expected_batch b) [1 .. int k])"
      then obtain i where i: "1 \<le> i" "i \<le> int k" "expected_batch b (int k + 1) = expected_batch b i"
        by auto
      from expected_batch_inj [OF b _ i(1) i(3)] i(2) show False by simp
    qed
    show "expected_batch b (int k + 1) \<notin> set (map (expected_batch b) [int k + 3 .. K])"
    proof
      assume "expected_batch b (int k + 1) \<in> set (map (expected_batch b) [int k + 3 .. K])"
      then obtain i where i: "int k + 3 \<le> i" "expected_batch b (int k + 1) = expected_batch b i"
        by auto
      from i(1) have "1 \<le> i" by simp
      from expected_batch_inj [OF b _ this i(2)] i(1) show False by simp
    qed
  qed
  have runs: "\<exists>K. int k + 2 \<le> K
             \<and> sent_batches (trace final) = sent_batches (trace w)
                 @ map (expected_batch b) [1 .. int k]
                 @ [expected_batch b (int k + 1), expected_batch b (int k + 2)]
                 @ map (expected_batch b) [int k + 3 .. K]
             \<and> expected_batch b (int k + 1) \<notin> set (map (expected_batch b) [1 .. int k])
             \<and> expected_batch b (int k + 1) \<notin> set (map (expected_batch b) [int k + 3 .. K])"
    if ret: "produce_messages cl b limit w = Some (r, final)" for r final
  proof -
    from produce_messages_sent [OF b ret steps1 guard1] obtain K where
      after: "int (Suc k) + 1 \<le> K"
      and sent: "sent_batches (trace final) = sent_batches (trace w) @ map (expected_batch b) [1 .. K]"
      by blast
    from after have K: "int k + 2 \<le> K" by simp
    from K have "[1 .. K] = [1 .. int k] @ [int k + 1 .. K]"
      using upto_split1 [of 1 "int k + 1" K] by simp
    moreover from K have "[int k + 1 .. K] = (int k + 1) # [int k + 2 .. K]"
      using upto_rec1 [of "int k + 1" K] by (simp add: algebra_simps)
    moreover from K have "[int k + 2 .. K] = (int k + 2) # [int k + 3 .. K]"
      using upto_rec1 [of "int k + 2" K] by (simp add: algebra_simps)
    ultimately have "[1 .. K] = [1 .. int k] @ [int k + 1, int k + 2] @ [int k + 3 .. K]"
      by simp
    with sent have "sent_batches (trace final) = sent_batches (trace w)
                 @ map (expected_batch b) [1 .. int k]
                 @ [expected_batch b (int k + 1), expected_batch b (int k + 2)]
                 @ map (expected_batch b) [int k + 3 .. K]"
      by simp
    with K once show ?thesis by blast
  qed
  from steps1 produce_while_steps [OF steps1] same guard1 sent1 next_batch next_iteration next_head
    ids apart runs produce_messages_total [of cl b limit w]
  show ?thesis by blast
qed

text \<open>
  The theorem at a client whose first send fails, \<open>b = 2\<close> and bound 1, before the first
  iteration: the run sends batch 1, which fails, then batch 2, and returns.
\<close>

theorem failed_send_isolated_witness:
  "(0::int) < 2
   \<and> produce_steps 0 (memory_client first_send_fails None) 2 1 (producer_start empty_broker)
       = Some (producer_start empty_broker)
   \<and> n_sent_batches (producer_start empty_broker) < 1
   \<and> send_messages (memory_client first_send_fails None) STREAM_NAME TOPIC_NAME PARTITION_ID
         (expected_batch 2 (int 0 + 1)) (client (producer_start empty_broker))
       = (Inl (Exn ''ConnectionError'' ''connection reset''),
          \<lparr>streams = [], topics = [], partition = [], sends = 1\<rparr>)
   \<and> is_Exception (Exn ''ConnectionError'' ''connection reset'')
   \<and> (\<exists>s1. produce_steps (Suc 0) (memory_client first_send_fails None) 2 1
               (producer_start empty_broker) = Some s1
         \<and> n_sent_batches s1 = 0
         \<and> sent_batches (trace s1) = [[Message ''message-1'', Message ''message-2'']]
         \<and> sent_batches (trace (snd (produce_iteration (memory_client first_send_fails None) 2 s1)))
             = [[Message ''message-1'', Message ''message-2''],
                [Message ''message-3'', Message ''message-4'']]
         \<and> produce_steps (Suc (Suc 0)) (memory_client first_send_fails None) 2 1
               (producer_start empty_broker)
             = Some (snd (produce_iteration (memory_client first_send_fails None) 2 s1))
         \<and> produce_while (memory_client first_send_fails None) 2 1 (producer_start empty_broker)
             = Some (Inr (), snd (produce_iteration (memory_client first_send_fails None) 2 s1)))
   \<and> (\<exists>final. produce_messages (memory_client first_send_fails None) 2 1 empty_broker
                = Some (Inr (), final)
         \<and> n_sent_batches final = 1
         \<and> sent_batches (trace final)
             = [[Message ''message-1'', Message ''message-2''],
                [Message ''message-3'', Message ''message-4'']])"
proof -
  let ?cl = "memory_client first_send_fails None"
  have b: "(0::int) < 2" by simp
  have steps: "produce_steps 0 ?cl 2 1 (producer_start empty_broker)
       = Some (producer_start empty_broker)" by simp
  have guard: "n_sent_batches (producer_start empty_broker) < 1"
    by (simp add: producer_start_simps)
  have fail: "send_messages ?cl STREAM_NAME TOPIC_NAME PARTITION_ID
         (expected_batch 2 (int 0 + 1)) (client (producer_start empty_broker))
       = (Inl (Exn ''ConnectionError'' ''connection reset''),
          \<lparr>streams = [], topics = [], partition = [], sends = 1\<rparr>)"
    by (simp add: producer_start_simps double_defs)
  have exn: "is_Exception (Exn ''ConnectionError'' ''connection reset'')" by simp
  have b1: "expected_batch 2 1 = [Message ''message-1'', Message ''message-2'']"
    and b2: "expected_batch 2 2 = [Message ''message-3'', Message ''message-4'']"
    by (simp_all add: expected_batch_def payload_of_def str_defs upto.simps)
  have quiet: "sent_batches (trace empty_broker) = []"
    by (simp add: empty_broker_def)
  have "\<exists>final. produce_messages ?cl 2 1 empty_broker = Some (Inr (), final)
      \<and> n_sent_batches final = 1"
    by (simp add: producer_defs double_defs step_defs config_defs str_defs)
  then obtain final where ret: "produce_messages ?cl 2 1 empty_broker = Some (Inr (), final)"
    and count: "n_sent_batches final = 1"
    by blast
  have "\<exists>h. produce_steps (Suc (Suc 0)) ?cl 2 1 (producer_start empty_broker) = Some h
      \<and> n_sent_batches h = 1"
    by (simp add: producer_defs double_defs step_defs config_defs str_defs)
  then obtain h where two: "produce_steps (Suc (Suc 0)) ?cl 2 1 (producer_start empty_broker) = Some h"
    and at_bound: "n_sent_batches h = 1"
    by blast
  from failed_send_isolated [OF b steps guard fail exn]
  obtain s1 where steps1: "produce_steps (Suc 0) ?cl 2 1 (producer_start empty_broker) = Some s1"
    and same: "n_sent_batches s1 = n_sent_batches (producer_start empty_broker)"
    and sent1: "sent_batches (trace s1) = sent_batches (trace empty_broker)
        @ map (expected_batch 2) [1 .. int 0 + 1]"
    and sent2: "sent_batches (trace (snd (produce_iteration ?cl 2 s1)))
        = sent_batches (trace s1) @ [expected_batch 2 (int 0 + 2)]"
    and loop: "produce_while ?cl 2 1 (producer_start empty_broker) =
          (case produce_iteration ?cl 2 s1 of
             (Inl error, s2) \<Rightarrow> Some (Inl error, s2)
           | (Inr u, s2) \<Rightarrow> produce_while ?cl 2 1 s2)"
    and head: "produce_steps (Suc (Suc 0)) ?cl 2 1 (producer_start empty_broker) =
          (case produce_iteration ?cl 2 s1 of
             (Inl error, s2) \<Rightarrow> None
           | (Inr u, s2) \<Rightarrow> Some s2)"
    and runs: "\<forall>r final. produce_messages ?cl 2 1 empty_broker = Some (r, final) \<longrightarrow>
          (\<exists>K. int 0 + 2 \<le> K
             \<and> sent_batches (trace final) = sent_batches (trace empty_broker)
                 @ map (expected_batch 2) [1 .. int 0]
                 @ [expected_batch 2 (int 0 + 1), expected_batch 2 (int 0 + 2)]
                 @ map (expected_batch 2) [int 0 + 3 .. K]
             \<and> expected_batch 2 (int 0 + 1) \<notin> set (map (expected_batch 2) [1 .. int 0])
             \<and> expected_batch 2 (int 0 + 1) \<notin> set (map (expected_batch 2) [int 0 + 3 .. K]))"
    by blast
  from same have n: "n_sent_batches s1 = 0" by (simp add: producer_start_simps)
  from sent1 have one: "sent_batches (trace s1) = [[Message ''message-1'', Message ''message-2'']]"
    by (simp add: quiet b1)
  from sent2 have both: "sent_batches (trace (snd (produce_iteration ?cl 2 s1)))
             = [[Message ''message-1'', Message ''message-2''],
                [Message ''message-3'', Message ''message-4'']]"
    by (simp add: one b2)
  from head two have it2: "produce_iteration ?cl 2 s1 = (Inr (), h)"
    by (cases "produce_iteration ?cl 2 s1") (auto split: sum.splits)
  with two have second: "produce_steps (Suc (Suc 0)) ?cl 2 1 (producer_start empty_broker)
             = Some (snd (produce_iteration ?cl 2 s1))"
    by simp
  from loop it2 at_bound have returns: "produce_while ?cl 2 1 (producer_start empty_broker)
             = Some (Inr (), snd (produce_iteration ?cl 2 s1))"
    by (simp add: produce_while.simps)
  from runs ret obtain K where K: "int 0 + 2 \<le> K"
    and sent: "sent_batches (trace final) = sent_batches (trace empty_broker)
                 @ map (expected_batch 2) [1 .. int 0]
                 @ [expected_batch 2 (int 0 + 1), expected_batch 2 (int 0 + 2)]
                 @ map (expected_batch 2) [int 0 + 3 .. K]"
    by blast
  from produce_messages_result [OF ret] returns both
  have "sent_batches (trace final)
             = [[Message ''message-1'', Message ''message-2''],
                [Message ''message-3'', Message ''message-4'']]"
    by auto
  with ret count
  have run: "\<exists>final. produce_messages ?cl 2 1 empty_broker = Some (Inr (), final)
         \<and> n_sent_batches final = 1
         \<and> sent_batches (trace final)
             = [[Message ''message-1'', Message ''message-2''],
                [Message ''message-3'', Message ''message-4'']]"
    by blast
  from steps1 n one both second returns
  have "\<exists>s1. produce_steps (Suc 0) ?cl 2 1 (producer_start empty_broker) = Some s1
         \<and> n_sent_batches s1 = 0
         \<and> sent_batches (trace s1) = [[Message ''message-1'', Message ''message-2'']]
         \<and> sent_batches (trace (snd (produce_iteration ?cl 2 s1)))
             = [[Message ''message-1'', Message ''message-2''],
                [Message ''message-3'', Message ''message-4'']]
         \<and> produce_steps (Suc (Suc 0)) ?cl 2 1 (producer_start empty_broker)
             = Some (snd (produce_iteration ?cl 2 s1))
         \<and> produce_while ?cl 2 1 (producer_start empty_broker)
             = Some (Inr (), snd (produce_iteration ?cl 2 s1))"
    by blast
  with b steps guard fail exn run show ?thesis by blast
qed

subsection \<open>C5: a failed poll\<close>

text \<open>
  C5. When a poll raises an \<open>Exception\<close> at the head of the consumer's loop, the loop
  returns at once: the error is logged, no second poll is made, and the count of consumed
  batches, the offset and everything else but the trace and the client are as before the
  poll.
\<close>

theorem poll_failure_ends_loop:
  assumes "n_consumed_batches s < limit"
    and "poll_messages cl STREAM_NAME TOPIC_NAME PARTITION_ID Next b True (client s) = (Inl error, c')"
    and "is_Exception error"
  shows "\<exists>s'. consume_while decode cl b limit s = Some (Inr (), s')
    \<and> since s s' =
          [Log DEBUG ''Polling for messages...'',
           PollMessages STREAM_NAME TOPIC_NAME PARTITION_ID Next b True,
           Raised error,
           Log ERROR (''Exception occurred while consuming messages: '' @ message error)]
    \<and> n_consumed_batches s' = n_consumed_batches s
    \<and> offset s' = offset s
    \<and> client s' = c'"
proof -
  let ?s' = "s\<lparr>client := c',
        trace := trace s @
          [Log DEBUG ''Polling for messages...'',
           PollMessages STREAM_NAME TOPIC_NAME PARTITION_ID Next b True,
           Raised error,
           Log ERROR (''Exception occurred while consuming messages: '' @ message error)]\<rparr>"
  from assms(1) consume_iteration_raised [OF assms(2,3), of decode]
  have "consume_while decode cl b limit s = Some (Inr (), ?s')"
    by (subst consume_while.simps) simp
  moreover have "since s ?s' =
          [Log DEBUG ''Polling for messages...'',
           PollMessages STREAM_NAME TOPIC_NAME PARTITION_ID Next b True,
           Raised error,
           Log ERROR (''Exception occurred while consuming messages: '' @ message error)]"
    by (simp add: since_def)
  ultimately show ?thesis by auto
qed

text \<open>The theorem at a client whose first poll fails, with the bound of the source.\<close>

theorem poll_failure_ends_loop_witness:
  "n_consumed_batches (consumer_start (script [Inl (Exn ''ConnectionError'' ''connection reset'')]))
     < BATCHES_LIMIT
   \<and> poll_messages scripted_client STREAM_NAME TOPIC_NAME PARTITION_ID Next 10 True
       (client (consumer_start (script [Inl (Exn ''ConnectionError'' ''connection reset'')])))
       = (Inl (Exn ''ConnectionError'' ''connection reset''), [])
   \<and> is_Exception (Exn ''ConnectionError'' ''connection reset'')
   \<and> (\<exists>s'. consume_while decode_ascii scripted_client 10 BATCHES_LIMIT
          (consumer_start (script [Inl (Exn ''ConnectionError'' ''connection reset'')]))
          = Some (Inr (), s')
        \<and> since (consumer_start (script [Inl (Exn ''ConnectionError'' ''connection reset'')])) s'
          = [Log DEBUG ''Polling for messages...'',
             PollMessages ''sample-stream'' ''sample-topic'' 1 Next 10 True,
             Raised (Exn ''ConnectionError'' ''connection reset''),
             Log ERROR ''Exception occurred while consuming messages: connection reset'']
        \<and> n_consumed_batches s' = 0)"
proof -
  have guard: "n_consumed_batches (consumer_start (script [Inl (Exn ''ConnectionError'' ''connection reset'')]))
     < BATCHES_LIMIT"
    by (simp add: consumer_start_simps BATCHES_LIMIT_def)
  have poll: "poll_messages scripted_client STREAM_NAME TOPIC_NAME PARTITION_ID Next 10 True
       (client (consumer_start (script [Inl (Exn ''ConnectionError'' ''connection reset'')])))
       = (Inl (Exn ''ConnectionError'' ''connection reset''), [])"
    by (simp add: consumer_start_simps scripted_client_def script_def)
  have exn: "is_Exception (Exn ''ConnectionError'' ''connection reset'')" by simp
  from poll_failure_ends_loop [OF guard poll exn, of decode_ascii]
  have "\<exists>s'. consume_while decode_ascii scripted_client 10 BATCHES_LIMIT
          (consumer_start (script [Inl (Exn ''ConnectionError'' ''connection reset'')]))
          = Some (Inr (), s')
        \<and> since (consumer_start (script [Inl (Exn ''ConnectionError'' ''connection reset'')])) s'
          = [Log DEBUG ''Polling for messages...'',
             PollMessages ''sample-stream'' ''sample-topic'' 1 Next 10 True,
             Raised (Exn ''ConnectionError'' ''connection reset''),
             Log ERROR ''Exception occurred while consuming messages: connection reset'']
        \<and> n_consumed_batches s' = 0"
    by (simp add: consumer_start_simps config_defs) blast
  with guard poll exn show ?thesis by blast
qed

subsection \<open>C6: provisioning twice\<close>

text \<open>
  C6. Let \<open>init_system\<close> run twice on a broker that has neither the stream nor the
  topic, creates both without error, and then finds both. The first run creates each
  once. The second run finds both, makes the two lookups and no other request, raises
  and logs no error, and reports for each that it already exists: over the two runs
  there is one creation of the stream and one of the topic.
\<close>

theorem init_system_idempotent:
  assumes absent_stream: "get_stream cl STREAM_NAME (client w) = (Inr None, c1)"
    and create_stream: "create_stream cl STREAM_NAME STREAM_ID c1 = (Inr (), c2)"
    and absent_topic: "get_topic cl STREAM_NAME TOPIC_NAME c2 = (Inr None, c3)"
    and create_topic: "create_topic cl STREAM_NAME 1 TOPIC_NAME 1 c3 = (Inr (), c4)"
    and found_stream: "get_stream cl STREAM_NAME c4 = (Inr (Some stream), c5)"
    and found_topic: "get_topic cl STREAM_NAME TOPIC_NAME c5 = (Inr (Some topic), c6)"
  shows "\<exists>w1 w2. init_system cl w = (Inr (), w1) \<and> init_system cl w1 = (Inr (), w2)
    \<and> client w1 = c4 \<and> client w2 = c6
    \<and> creations (since w w1)
         = [CreateStream STREAM_NAME STREAM_ID, CreateTopic STREAM_NAME 1 TOPIC_NAME 1]
    \<and> since w1 w2
         = [Log INFO (''Creating stream with name '' @ STREAM_NAME @ ''...''),
            GetStream STREAM_NAME,
            Log WARNING (''Stream '' @ stream_name stream @ '' already exists with ID ''
              @ str_int (stream_id stream)),
            Log INFO (''Creating topic '' @ TOPIC_NAME @ '' in stream '' @ STREAM_NAME),
            GetTopic STREAM_NAME TOPIC_NAME,
            Log WARNING (''Topic '' @ topic_name topic @ '' already exists with ID ''
              @ str_int (topic_id topic))]
    \<and> creations (since w w2)
         = [CreateStream STREAM_NAME STREAM_ID, CreateTopic STREAM_NAME 1 TOPIC_NAME 1]
    \<and> raised (since w w2) = []"
proof -
  define w1 where "w1 = w\<lparr>client := c4, trace := trace w @
     [Log INFO (''Creating stream with name '' @ STREAM_NAME @ ''...''),
      GetStream STREAM_NAME, CreateStream STREAM_NAME STREAM_ID,
      Log INFO ''Stream was created successfully.'',
      Log INFO (''Creating topic '' @ TOPIC_NAME @ '' in stream '' @ STREAM_NAME),
      GetTopic STREAM_NAME TOPIC_NAME, CreateTopic STREAM_NAME 1 TOPIC_NAME 1,
      Log INFO ''Topic was created successfully.'']\<rparr>"
  define w2 where "w2 = w1\<lparr>client := c6, trace := trace w1 @
     [Log INFO (''Creating stream with name '' @ STREAM_NAME @ ''...''),
      GetStream STREAM_NAME,
      Log WARNING (''Stream '' @ stream_name stream @ '' already exists with ID ''
        @ str_int (stream_id stream)),
      Log INFO (''Creating topic '' @ TOPIC_NAME @ '' in stream '' @ STREAM_NAME),
      GetTopic STREAM_NAME TOPIC_NAME,
      Log WARNING (''Topic '' @ topic_name topic @ '' already exists with ID ''
        @ str_int (topic_id topic))]\<rparr>"
  from absent_stream create_stream absent_topic create_topic
  have first: "init_system cl w = (Inr (), w1)"
    by (simp add: init_defs step_defs w1_def)
  have c1: "client w1 = c4" by (simp add: w1_def)
  from found_stream found_topic
  have second: "init_system cl w1 = (Inr (), w2)"
    by (simp add: init_defs step_defs w2_def c1)
  have "since w w1 =
     [Log INFO (''Creating stream with name '' @ STREAM_NAME @ ''...''),
      GetStream STREAM_NAME, CreateStream STREAM_NAME STREAM_ID,
      Log INFO ''Stream was created successfully.'',
      Log INFO (''Creating topic '' @ TOPIC_NAME @ '' in stream '' @ STREAM_NAME),
      GetTopic STREAM_NAME TOPIC_NAME, CreateTopic STREAM_NAME 1 TOPIC_NAME 1,
      Log INFO ''Topic was created successfully.'']"
    by (rule since_append) (simp add: w1_def)
  then have made: "creations (since w w1)
      = [CreateStream STREAM_NAME STREAM_ID, CreateTopic STREAM_NAME 1 TOPIC_NAME 1]"
    and quiet1: "raised (since w w1) = []"
    by simp_all
  have again: "since w1 w2 =
     [Log INFO (''Creating stream with name '' @ STREAM_NAME @ ''...''),
      GetStream STREAM_NAME,
      Log WARNING (''Stream '' @ stream_name stream @ '' already exists with ID ''
        @ str_int (stream_id stream)),
      Log INFO (''Creating topic '' @ TOPIC_NAME @ '' in stream '' @ STREAM_NAME),
      GetTopic STREAM_NAME TOPIC_NAME,
      Log WARNING (''Topic '' @ topic_name topic @ '' already exists with ID ''
        @ str_int (topic_id topic))]"
    by (rule since_append) (simp add: w2_def)
  have both: "since w w2 = since w w1 @ since w1 w2"
    by (simp add: since_def w1_def w2_def)
  from made quiet1 again have "creations (since w w2)
      = [CreateStream STREAM_NAME STREAM_ID, CreateTopic STREAM_NAME 1 TOPIC_NAME 1]"
    and "raised (since w w2) = []"
    by (simp_all add: both creations_append raised_append)
  moreover have "client w2 = c6" by (simp add: w2_def)
  ultimately show ?thesis using first second c1 made again by blast
qed

text \<open>The theorem at the in-memory broker, empty at the start.\<close>

theorem init_system_idempotent_witness:
  "get_stream (memory_client no_fault None) STREAM_NAME (client empty_broker)
     = (Inr None, client empty_broker)
   \<and> create_stream (memory_client no_fault None) STREAM_NAME STREAM_ID (client empty_broker)
     = (Inr (), \<lparr>streams = [\<lparr>stream_id = 1, stream_name = ''sample-stream''\<rparr>], topics = [],
                 partition = [], sends = 0\<rparr>)
   \<and> get_topic (memory_client no_fault None) STREAM_NAME TOPIC_NAME
        \<lparr>streams = [\<lparr>stream_id = 1, stream_name = ''sample-stream''\<rparr>], topics = [],
           partition = [], sends = 0\<rparr>
     = (Inr None, \<lparr>streams = [\<lparr>stream_id = 1, stream_name = ''sample-stream''\<rparr>], topics = [],
                   partition = [], sends = 0\<rparr>)
   \<and> create_topic (memory_client no_fault None) STREAM_NAME 1 TOPIC_NAME 1
        \<lparr>streams = [\<lparr>stream_id = 1, stream_name = ''sample-stream''\<rparr>], topics = [],
           partition = [], sends = 0\<rparr>
     = (Inr (), \<lparr>streams = [\<lparr>stream_id = 1, stream_name = ''sample-stream''\<rparr>],
                 topics = [(''sample-stream'', \<lparr>topic_id = 1, topic_name = ''sample-topic''\<rparr>)],
                 partition = [], sends = 0\<rparr>)
   \<and> get_stream (memory_client no_fault None) STREAM_NAME
        \<lparr>streams = [\<lparr>stream_id = 1, stream_name = ''sample-stream''\<rparr>],
           topics = [(''sample-stream'', \<lparr>topic_id = 1, topic_name = ''sample-topic''\<rparr>)],
           partition = [], sends = 0\<rparr>
     = (Inr (Some \<lparr>stream_id = 1, stream_name = ''sample-stream''\<rparr>),
        \<lparr>streams = [\<lparr>stream_id = 1, stream_name = ''sample-stream''\<rparr>],
           topics = [(''sample-stream'', \<lparr>topic_id = 1, topic_name = ''sample-topic''\<rparr>)],
           partition = [], sends = 0\<rparr>)
   \<and> get_topic (memory_client no_fault None) STREAM_NAME TOPIC_NAME
        \<lparr>streams = [\<lparr>stream_id = 1, stream_name = ''sample-stream''\<rparr>],
           topics = [(''sample-stream'', \<lparr>topic_id = 1, topic_name = ''sample-topic''\<rparr>)],
           partition = [], sends = 0\<rparr>
     = (Inr (Some \<lparr>topic_id = 1, topic_name = ''sample-topic''\<rparr>),
        \<lparr>streams = [\<lparr>stream_id = 1, stream_name = ''sample-stream''\<rparr>],
           topics = [(''sample-stream'', \<lparr>topic_id = 1, topic_name = ''sample-topic''\<rparr>)],
           partition = [], sends = 0\<rparr>)
   \<and> (\<exists>w1 w2.
        init_system (memory_client no_fault None) empty_broker = (Inr (), w1)
      \<and> init_system (memory_client no_fault None) w1 = (Inr (), w2)
      \<and> client w2 = client w1
      \<and> creations (trace w2)
          = [CreateStream ''sample-stream'' 1, CreateTopic ''sample-stream'' 1 ''sample-topic'' 1]
      \<and> since w1 w2
          = [Log INFO ''Creating stream with name sample-stream...'',
             GetStream ''sample-stream'',
             Log WARNING ''Stream sample-stream already exists with ID 1'',
             Log INFO ''Creating topic sample-topic in stream sample-stream'',
             GetTopic ''sample-stream'' ''sample-topic'',
             Log WARNING ''Topic sample-topic already exists with ID 1''])"
proof -
  let ?cl = "memory_client no_fault None"
  let ?c2 = "\<lparr>streams = [\<lparr>stream_id = 1, stream_name = ''sample-stream''\<rparr>], topics = [],
              partition = [], sends = 0\<rparr>"
  let ?c4 = "\<lparr>streams = [\<lparr>stream_id = 1, stream_name = ''sample-stream''\<rparr>],
              topics = [(''sample-stream'', \<lparr>topic_id = 1, topic_name = ''sample-topic''\<rparr>)],
              partition = [], sends = 0\<rparr>"
  have h1: "get_stream ?cl STREAM_NAME (client empty_broker) = (Inr None, client empty_broker)"
    by (simp add: double_defs config_defs)
  have h2: "create_stream ?cl STREAM_NAME STREAM_ID (client empty_broker) = (Inr (), ?c2)"
    by (simp add: double_defs config_defs)
  have h3: "get_topic ?cl STREAM_NAME TOPIC_NAME ?c2 = (Inr None, ?c2)"
    by (simp add: double_defs config_defs)
  have h4: "create_topic ?cl STREAM_NAME 1 TOPIC_NAME 1 ?c2 = (Inr (), ?c4)"
    by (simp add: double_defs config_defs)
  have h5: "get_stream ?cl STREAM_NAME ?c4
      = (Inr (Some \<lparr>stream_id = 1, stream_name = ''sample-stream''\<rparr>), ?c4)"
    by (simp add: double_defs config_defs)
  have h6: "get_topic ?cl STREAM_NAME TOPIC_NAME ?c4
      = (Inr (Some \<lparr>topic_id = 1, topic_name = ''sample-topic''\<rparr>), ?c4)"
    by (simp add: double_defs config_defs)
  have start: "since empty_broker w = trace w" for w :: "broker world"
    by (simp add: since_def empty_broker_def)
  from init_system_idempotent [OF h1 h2 h3 h4 h5 h6]
  obtain w1 w2 where "init_system ?cl empty_broker = (Inr (), w1)"
    and "init_system ?cl w1 = (Inr (), w2)"
    and "client w1 = ?c4" and "client w2 = ?c4"
    and "creations (since empty_broker w2)
         = [CreateStream STREAM_NAME STREAM_ID, CreateTopic STREAM_NAME 1 TOPIC_NAME 1]"
    and "since w1 w2
         = [Log INFO (''Creating stream with name '' @ STREAM_NAME @ ''...''),
            GetStream STREAM_NAME,
            Log WARNING (''Stream '' @ stream_name \<lparr>stream_id = 1, stream_name = ''sample-stream''\<rparr>
              @ '' already exists with ID ''
              @ str_int (stream_id \<lparr>stream_id = 1, stream_name = ''sample-stream''\<rparr>)),
            Log INFO (''Creating topic '' @ TOPIC_NAME @ '' in stream '' @ STREAM_NAME),
            GetTopic STREAM_NAME TOPIC_NAME,
            Log WARNING (''Topic '' @ topic_name \<lparr>topic_id = 1, topic_name = ''sample-topic''\<rparr>
              @ '' already exists with ID ''
              @ str_int (topic_id \<lparr>topic_id = 1, topic_name = ''sample-topic''\<rparr>))]"
    by blast
  with h1 h2 h3 h4 h5 h6 show ?thesis
    by (simp add: start config_defs str_defs)
qed

subsection \<open>C7: an empty poll\<close>

text \<open>
  C7. An empty poll at the head of the consumer's loop is no error: the iteration logs
  that nothing was found, sleeps, and comes back to the loop head with the count of
  consumed batches and the offset unchanged, and the loop goes on from there. When that
  iteration belongs to a run of \<open>consume_messages\<close>, the run is at its next loop head;
  at every loop head of the run the count of consumed batches is the number of polls
  that returned messages so far, it is at most the bound, and the loop goes on with
  another iteration while the count is below the bound and returns when the count
  reaches it. A run that returns has ended in one of three ways: the count is the bound
  and so is the number of non-empty polls of the run; or an \<open>Exception\<close> was logged by
  the \<open>except\<close> clause just before the closing line; or an exception that is no
  \<open>Exception\<close> has left the function. The run returns exactly when some loop head has
  the count at the bound or an iteration that fails.
\<close>

theorem empty_poll_not_counted:
  assumes guard: "n_consumed_batches s < limit"
    and empty: "poll_messages cl STREAM_NAME TOPIC_NAME PARTITION_ID Next b True (client s) = (Inr [], c')"
  shows "\<exists>s'. consume_iteration decode cl b s = (Continue, s')
    \<and> since s s' =
         [Log DEBUG ''Polling for messages...'',
          PollMessages STREAM_NAME TOPIC_NAME PARTITION_ID Next b True,
          Polled [],
          Log INFO ''No messages found in current poll'',
          Sleep interval]
    \<and> nonempty_polls (since s s') = 0
    \<and> n_consumed_batches s' = n_consumed_batches s
    \<and> offset s' = offset s
    \<and> client s' = c'
    \<and> consume_while decode cl b limit s = consume_while decode cl b limit s'
    \<and> (\<forall>w k0. consume_steps k0 decode cl b limit (consumer_start w) = Some s \<longrightarrow>
          consume_steps (Suc k0) decode cl b limit (consumer_start w) = Some s'
          \<and> (\<forall>k h. consume_steps k decode cl b limit (consumer_start w) = Some h \<longrightarrow>
                n_consumed_batches h = int (nonempty_polls (since w h))
                \<and> n_consumed_batches h \<le> limit
                \<and> consume_while decode cl b limit (consumer_start w) =
                    (if n_consumed_batches h < limit
                     then (case consume_iteration decode cl b h of
                             (Continue, h') \<Rightarrow> consume_while decode cl b limit h'
                           | (Break, h') \<Rightarrow> Some (Inr (), h')
                           | (Raise error, h') \<Rightarrow> Some (Inl error, h'))
                     else Some (Inr (), h)))
          \<and> (\<forall>r final. consume_messages decode cl b limit w = Some (r, final) \<longrightarrow>
                (r = Inr () \<and> n_consumed_batches final = limit
                   \<and> int (nonempty_polls (since w final)) = limit)
                \<or> (r = Inr () \<and> n_consumed_batches final < limit
                   \<and> (\<exists>m. last (butlast (trace final))
                         = Log ERROR (''Exception occurred while consuming messages: '' @ m)))
                \<or> (\<exists>error. r = Inl error \<and> \<not> is_Exception error
                     \<and> n_consumed_batches final < limit))
          \<and> ((\<exists>res. consume_messages decode cl b limit w = Some res)
               = (\<exists>k h. consume_steps k decode cl b limit (consumer_start w) = Some h
                    \<and> (\<not> n_consumed_batches h < limit
                         \<or> fst (consume_iteration decode cl b h) \<noteq> Continue))))"
proof -
  let ?s' = "s\<lparr>client := c',
       trace := trace s @
         [Log DEBUG ''Polling for messages...'',
          PollMessages STREAM_NAME TOPIC_NAME PARTITION_ID Next b True,
          Polled [],
          Log INFO ''No messages found in current poll'',
          Sleep interval]\<rparr>"
  note it = consume_iteration_empty [OF empty, of decode]
  from guard it have go_on: "consume_while decode cl b limit s = consume_while decode cl b limit ?s'"
    by (subst consume_while.simps) simp
  have new: "since s ?s' =
         [Log DEBUG ''Polling for messages...'',
          PollMessages STREAM_NAME TOPIC_NAME PARTITION_ID Next b True,
          Polled [],
          Log INFO ''No messages found in current poll'',
          Sleep interval]"
    by (simp add: since_def)
  then have none: "nonempty_polls (since s ?s') = 0" by simp
  have run: "consume_steps (Suc k0) decode cl b limit (consumer_start w) = Some ?s'
      \<and> (\<forall>k h. consume_steps k decode cl b limit (consumer_start w) = Some h \<longrightarrow>
                n_consumed_batches h = int (nonempty_polls (since w h))
                \<and> n_consumed_batches h \<le> limit
                \<and> consume_while decode cl b limit (consumer_start w) =
                    (if n_consumed_batches h < limit
                     then (case consume_iteration decode cl b h of
                             (Continue, h') \<Rightarrow> consume_while decode cl b limit h'
                           | (Break, h') \<Rightarrow> Some (Inr (), h')
                           | (Raise error, h') \<Rightarrow> Some (Inl error, h'))
                     else Some (Inr (), h)))
      \<and> (\<forall>r final. consume_messages decode cl b limit w = Some (r, final) \<longrightarrow>
                (r = Inr () \<and> n_consumed_batches final = limit
                   \<and> int (nonempty_polls (since w final)) = limit)
                \<or> (r = Inr () \<and> n_consumed_batches final < limit
                   \<and> (\<exists>m. last (butlast (trace final))
                         = Log ERROR (''Exception occurred while consuming messages: '' @ m)))
                \<or> (\<exists>error. r = Inl error \<and> \<not> is_Exception error
                     \<and> n_consumed_batches final < limit))
      \<and> ((\<exists>res. consume_messages decode cl b limit w = Some res)
               = (\<exists>k h. consume_steps k decode cl b limit (consumer_start w) = Some h
                    \<and> (\<not> n_consumed_batches h < limit
                         \<or> fst (consume_iteration decode cl b h) \<noteq> Continue)))"
    if reach: "consume_steps k0 decode cl b limit (consumer_start w) = Some s" for w k0
  proof -
    from consume_steps_state [OF reach] guard have pos: "0 \<le> limit"
      by (simp add: consumer_start_simps)
    have next_head: "consume_steps (Suc k0) decode cl b limit (consumer_start w) = Some ?s'"
      by (rule consume_steps_snoc [OF reach guard it])
    have heads: "n_consumed_batches h = int (nonempty_polls (since w h))
                \<and> n_consumed_batches h \<le> limit
                \<and> consume_while decode cl b limit (consumer_start w) =
                    (if n_consumed_batches h < limit
                     then (case consume_iteration decode cl b h of
                             (Continue, h') \<Rightarrow> consume_while decode cl b limit h'
                           | (Break, h') \<Rightarrow> Some (Inr (), h')
                           | (Raise error, h') \<Rightarrow> Some (Inl error, h'))
                     else Some (Inr (), h))"
      if steps: "consume_steps k decode cl b limit (consumer_start w) = Some h" for k h
    proof -
      from consume_steps_polls [OF steps] obtain evs where
        tr: "trace h = trace (consumer_start w) @ evs"
        and count: "n_consumed_batches h = int (nonempty_polls evs)"
        by (auto simp: consumer_start_simps)
      from tr have "nonempty_polls (since w h) = nonempty_polls evs"
        by (simp add: since_def consumer_start_def step_defs world.defs)
      with count have "n_consumed_batches h = int (nonempty_polls (since w h))" by simp
      moreover from consume_steps_state [OF steps] pos have "n_consumed_batches h \<le> limit"
        by (simp add: consumer_start_simps max_def split: if_splits)
      ultimately show ?thesis using consume_while_head [OF steps] by simp
    qed
    have ends: "(r = Inr () \<and> n_consumed_batches final = limit
                   \<and> int (nonempty_polls (since w final)) = limit)
                \<or> (r = Inr () \<and> n_consumed_batches final < limit
                   \<and> (\<exists>m. last (butlast (trace final))
                         = Log ERROR (''Exception occurred while consuming messages: '' @ m)))
                \<or> (\<exists>error. r = Inl error \<and> \<not> is_Exception error
                     \<and> n_consumed_batches final < limit)"
      if ret: "consume_messages decode cl b limit w = Some (r, final)" for r final
      by (rule consume_messages_returns [OF ret pos])
    from next_head heads ends consume_messages_total [of decode cl b limit w]
    show ?thesis by blast
  qed
  then have loop: "\<forall>w k0. consume_steps k0 decode cl b limit (consumer_start w) = Some s \<longrightarrow>
      consume_steps (Suc k0) decode cl b limit (consumer_start w) = Some ?s'
      \<and> (\<forall>k h. consume_steps k decode cl b limit (consumer_start w) = Some h \<longrightarrow>
                n_consumed_batches h = int (nonempty_polls (since w h))
                \<and> n_consumed_batches h \<le> limit
                \<and> consume_while decode cl b limit (consumer_start w) =
                    (if n_consumed_batches h < limit
                     then (case consume_iteration decode cl b h of
                             (Continue, h') \<Rightarrow> consume_while decode cl b limit h'
                           | (Break, h') \<Rightarrow> Some (Inr (), h')
                           | (Raise error, h') \<Rightarrow> Some (Inl error, h'))
                     else Some (Inr (), h)))
      \<and> (\<forall>r final. consume_messages decode cl b limit w = Some (r, final) \<longrightarrow>
                (r = Inr () \<and> n_consumed_batches final = limit
                   \<and> int (nonempty_polls (since w final)) = limit)
                \<or> (r = Inr () \<and> n_consumed_batches final < limit
                   \<and> (\<exists>m. last (butlast (trace final))
                         = Log ERROR (''Exception occurred while consuming messages: '' @ m)))
                \<or> (\<exists>error. r = Inl error \<and> \<not> is_Exception error
                     \<and> n_consumed_batches final < limit))
      \<and> ((\<exists>res. consume_messages decode cl b limit w = Some res)
               = (\<exists>k h. consume_steps k decode cl b limit (consumer_start w) = Some h
                    \<and> (\<not> n_consumed_batches h < limit
                         \<or> fst (consume_iteration decode cl b h) \<noteq> Continue)))"
    by blast
  have same: "n_consumed_batches ?s' = n_consumed_batches s" "offset ?s' = offset s" "client ?s' = c'"
    by simp_all
  from it new none same go_on loop show ?thesis by blast
qed

text \<open>
  The theorem at a client whose first poll finds nothing and whose next two polls find
  one message each, with bound 2.
\<close>

theorem empty_poll_not_counted_witness:
  "n_consumed_batches (consumer_start (script
       [Inr [], Inr [\<lparr>message_offset = 0, message_payload = ''message-1''\<rparr>],
        Inr [\<lparr>message_offset = 1, message_payload = ''message-2''\<rparr>]])) < 2
   \<and> poll_messages scripted_client STREAM_NAME TOPIC_NAME PARTITION_ID Next 10 True
       (client (consumer_start (script
          [Inr [], Inr [\<lparr>message_offset = 0, message_payload = ''message-1''\<rparr>],
           Inr [\<lparr>message_offset = 1, message_payload = ''message-2''\<rparr>]])))
       = (Inr [], [Inr [\<lparr>message_offset = 0, message_payload = ''message-1''\<rparr>],
                   Inr [\<lparr>message_offset = 1, message_payload = ''message-2''\<rparr>]])
   \<and> (\<exists>s'. consume_steps 1 decode_ascii scripted_client 10 2 (consumer_start (script
          [Inr [], Inr [\<lparr>message_offset = 0, message_payload = ''message-1''\<rparr>],
           Inr [\<lparr>message_offset = 1, message_payload = ''message-2''\<rparr>]])) = Some s'
        \<and> n_consumed_batches s' = 0)
   \<and> (\<exists>h. consume_steps 3 decode_ascii scripted_client 10 2 (consumer_start (script
          [Inr [], Inr [\<lparr>message_offset = 0, message_payload = ''message-1''\<rparr>],
           Inr [\<lparr>message_offset = 1, message_payload = ''message-2''\<rparr>]])) = Some h
        \<and> n_consumed_batches h = 2
        \<and> consume_while decode_ascii scripted_client 10 2 (consumer_start (script
          [Inr [], Inr [\<lparr>message_offset = 0, message_payload = ''message-1''\<rparr>],
           Inr [\<lparr>message_offset = 1, message_payload = ''message-2''\<rparr>]])) = Some (Inr (), h)
        \<and> since (script
          [Inr [], Inr [\<lparr>message_offset = 0, message_payload = ''message-1''\<rparr>],
           Inr [\<lparr>message_offset = 1, message_payload = ''message-2''\<rparr>]]) h
            = [Log INFO ''Messages will be consumed from stream: sample-stream, topic: sample-topic, partition: 1 with interval 500.0 ms.'',
               Log DEBUG ''Polling for messages...'',
               PollMessages ''sample-stream'' ''sample-topic'' 1 Next 10 True,
               Polled [],
               Log INFO ''No messages found in current poll'',
               Sleep (1 / 2),
               Log DEBUG ''Polling for messages...'',
               PollMessages ''sample-stream'' ''sample-topic'' 1 Next 10 True,
               Polled [\<lparr>message_offset = 0, message_payload = ''message-1''\<rparr>],
               Log INFO ''Handling message at offset: 0 with payload: message-1...'',
               Sleep (1 / 2),
               Log DEBUG ''Polling for messages...'',
               PollMessages ''sample-stream'' ''sample-topic'' 1 Next 10 True,
               Polled [\<lparr>message_offset = 1, message_payload = ''message-2''\<rparr>],
               Log INFO ''Handling message at offset: 1 with payload: message-2...'',
               Sleep (1 / 2)])
   \<and> (\<exists>final. consume_messages decode_ascii scripted_client 10 2 (script
          [Inr [], Inr [\<lparr>message_offset = 0, message_payload = ''message-1''\<rparr>],
           Inr [\<lparr>message_offset = 1, message_payload = ''message-2''\<rparr>]]) = Some (Inr (), final)
        \<and> n_consumed_batches final = 2
        \<and> nonempty_polls (since (script
          [Inr [], Inr [\<lparr>message_offset = 0, message_payload = ''message-1''\<rparr>],
           Inr [\<lparr>message_offset = 1, message_payload = ''message-2''\<rparr>]]) final) = 2
        \<and> last (trace final) = Log INFO ''Consumed 2 batches of messages, exiting.'')"
proof -
  let ?w = "script [Inr [], Inr [\<lparr>message_offset = 0, message_payload = ''message-1''\<rparr>],
                    Inr [\<lparr>message_offset = 1, message_payload = ''message-2''\<rparr>]]"
  let ?run = "[Log INFO ''Messages will be consumed from stream: sample-stream, topic: sample-topic, partition: 1 with interval 500.0 ms.'',
               Log DEBUG ''Polling for messages...'',
               PollMessages ''sample-stream'' ''sample-topic'' 1 Next 10 True,
               Polled [],
               Log INFO ''No messages found in current poll'',
               Sleep (1 / 2),
               Log DEBUG ''Polling for messages...'',
               PollMessages ''sample-stream'' ''sample-topic'' 1 Next 10 True,
               Polled [\<lparr>message_offset = 0, message_payload = ''message-1''\<rparr>],
               Log INFO ''Handling message at offset: 0 with payload: message-1...'',
               Sleep (1 / 2),
               Log DEBUG ''Polling for messages...'',
               PollMessages ''sample-stream'' ''sample-topic'' 1 Next 10 True,
               Polled [\<lparr>message_offset = 1, message_payload = ''message-2''\<rparr>],
               Log INFO ''Handling message at offset: 1 with payload: message-2...'',
               Sleep (1 / 2)]"
  have guard: "n_consumed_batches (consumer_start ?w) < 2"
    by (simp add: consumer_start_simps)
  have empty: "poll_messages scripted_client STREAM_NAME TOPIC_NAME PARTITION_ID Next 10 True
       (client (consumer_start ?w))
       = (Inr [], [Inr [\<lparr>message_offset = 0, message_payload = ''message-1''\<rparr>],
                   Inr [\<lparr>message_offset = 1, message_payload = ''message-2''\<rparr>]])"
    by (simp add: consumer_start_simps scripted_client_def script_def)
  have start: "consume_steps 0 decode_ascii scripted_client 10 2 (consumer_start ?w)
      = Some (consumer_start ?w)"
    by simp
  have "\<exists>h. consume_steps 3 decode_ascii scripted_client 10 2 (consumer_start ?w) = Some h
      \<and> since ?w h = ?run"
    by (simp add: consumer_defs step_defs invoke_poll_def config_defs str_defs since_def)
  then obtain h where three: "consume_steps 3 decode_ascii scripted_client 10 2 (consumer_start ?w) = Some h"
    and tr: "since ?w h = ?run"
    by blast
  have "\<exists>final. consume_messages decode_ascii scripted_client 10 2 ?w = Some (Inr (), final)
      \<and> last (trace final) = Log INFO ''Consumed 2 batches of messages, exiting.''
      \<and> last (butlast (trace final)) = Sleep (1 / 2)"
    by (simp add: consumer_defs step_defs invoke_poll_def config_defs str_defs)
  then obtain final where ret: "consume_messages decode_ascii scripted_client 10 2 ?w = Some (Inr (), final)"
    and closing: "last (trace final) = Log INFO ''Consumed 2 batches of messages, exiting.''"
    and before: "last (butlast (trace final)) = Sleep (1 / 2)"
    by blast
  from before have no_error: "\<forall>m. last (butlast (trace final))
      \<noteq> Log ERROR (''Exception occurred while consuming messages: '' @ m)"
    by simp
  from empty_poll_not_counted [OF guard empty, of decode_ascii]
  obtain s' where it: "consume_iteration decode_ascii scripted_client 10 (consumer_start ?w) = (Continue, s')"
    and same: "n_consumed_batches s' = n_consumed_batches (consumer_start ?w)"
    and run: "\<forall>w k0. consume_steps k0 decode_ascii scripted_client 10 2 (consumer_start w)
          = Some (consumer_start ?w) \<longrightarrow>
          consume_steps (Suc k0) decode_ascii scripted_client 10 2 (consumer_start w) = Some s'
          \<and> (\<forall>k h. consume_steps k decode_ascii scripted_client 10 2 (consumer_start w) = Some h \<longrightarrow>
                n_consumed_batches h = int (nonempty_polls (since w h))
                \<and> n_consumed_batches h \<le> 2
                \<and> consume_while decode_ascii scripted_client 10 2 (consumer_start w) =
                    (if n_consumed_batches h < 2
                     then (case consume_iteration decode_ascii scripted_client 10 h of
                             (Continue, h') \<Rightarrow> consume_while decode_ascii scripted_client 10 2 h'
                           | (Break, h') \<Rightarrow> Some (Inr (), h')
                           | (Raise error, h') \<Rightarrow> Some (Inl error, h'))
                     else Some (Inr (), h)))
          \<and> (\<forall>r final. consume_messages decode_ascii scripted_client 10 2 w = Some (r, final) \<longrightarrow>
                (r = Inr () \<and> n_consumed_batches final = 2
                   \<and> int (nonempty_polls (since w final)) = 2)
                \<or> (r = Inr () \<and> n_consumed_batches final < 2
                   \<and> (\<exists>m. last (butlast (trace final))
                         = Log ERROR (''Exception occurred while consuming messages: '' @ m)))
                \<or> (\<exists>error. r = Inl error \<and> \<not> is_Exception error
                     \<and> n_consumed_batches final < 2))"
    by blast
  from run start have one: "consume_steps (Suc 0) decode_ascii scripted_client 10 2 (consumer_start ?w) = Some s'"
    by blast
  from same have zero: "n_consumed_batches s' = 0" by (simp add: consumer_start_simps)
  from run start three have "n_consumed_batches h = int (nonempty_polls (since ?w h))"
    and loop: "consume_while decode_ascii scripted_client 10 2 (consumer_start ?w) =
                    (if n_consumed_batches h < 2
                     then (case consume_iteration decode_ascii scripted_client 10 h of
                             (Continue, h') \<Rightarrow> consume_while decode_ascii scripted_client 10 2 h'
                           | (Break, h') \<Rightarrow> Some (Inr (), h')
                           | (Raise error, h') \<Rightarrow> Some (Inl error, h'))
                     else Some (Inr (), h))"
    by blast+
  with tr have two: "n_consumed_batches h = 2" by simp
  with loop have returns: "consume_while decode_ascii scripted_client 10 2 (consumer_start ?w) = Some (Inr (), h)"
    by simp
  from run start ret have "(n_consumed_batches final = 2 \<and> int (nonempty_polls (since ?w final)) = 2)
      \<or> (\<exists>m. last (butlast (trace final))
                         = Log ERROR (''Exception occurred while consuming messages: '' @ m))"
    by blast
  with no_error have fin: "n_consumed_batches final = 2" "nonempty_polls (since ?w final) = 2"
    by auto
  from one zero have first: "\<exists>s'. consume_steps 1 decode_ascii scripted_client 10 2 (consumer_start ?w) = Some s'
        \<and> n_consumed_batches s' = 0"
    by simp
  from guard empty first three two returns tr ret fin closing show ?thesis by blast
qed

subsection \<open>C8: order within a batch\<close>

text \<open>
  C8, as amended. The claim has the consumer process every polled message. The \<open>for\<close>
  loop over the polled messages stands inside the \<open>try\<close> block: at the first message
  whose payload does not decode, \<open>handle_message\<close> raises, the messages after it are
  never handled, and the \<open>except\<close> clause logs the error and leaves the loop. What
  holds, for a batch size \<open>b \<ge> 1\<close>:

  \<^item> an iteration of the producer makes one request, a send to the fixed partition,
    which carries the whole batch in the order in which the payloads were built;

  \<^item> an iteration of the consumer whose poll returns messages handles them in the order
    of the returned list, up to the first whose payload does not decode: all of them and
    then a sleep when every payload decodes, and otherwise the ones before that message
    and then the end of the loop;

  \<^item> when the poll returns the messages of the producer's request in the order of the
    request, and the decoder is the identity on ASCII bytes, every message of the batch is
    handled, in the order in which it was sent;

  \<^item> the in-memory broker returns them so: after an iteration of the producer whose send
    it accepts, a poll of \<open>b\<close> messages from the position where the batch begins is
    handled in the order of the batch.
\<close>

theorem batch_order_kept:
  assumes b: "0 < b"
  shows "filter is_request (since s (snd (produce_iteration cl b s)))
       = [SendMessages STREAM_NAME TOPIC_NAME PARTITION_ID
            (map payload_of [current_id s + 1 .. current_id s + b])]
    \<and> (\<forall>msgs ic'.
         poll_messages icl STREAM_NAME TOPIC_NAME PARTITION_ID Next n True (client c) = (Inr msgs, ic')
         \<and> msgs \<noteq> [] \<longrightarrow>
           since c (snd (consume_iteration decode icl n c)) =
             [Log DEBUG ''Polling for messages...'',
              PollMessages STREAM_NAME TOPIC_NAME PARTITION_ID Next n True,
              Polled msgs]
             @ map (handling_of decode) (takeWhile (decodes decode) msgs)
             @ (if list_all (decodes decode) msgs then [Sleep interval]
                else if is_Exception (decode_error decode msgs)
                then [Log ERROR (''Exception occurred while consuming messages: ''
                        @ message (decode_error decode msgs))]
                else [])
         \<and> fst (consume_iteration decode icl n c) =
             (if list_all (decodes decode) msgs then Continue
              else if is_Exception (decode_error decode msgs) then Break
              else Raise (decode_error decode msgs))
         \<and> (map message_payload msgs
                = map message_text (map payload_of [current_id s + 1 .. current_id s + b])
              \<and> (\<forall>bytes. is_ascii bytes \<longrightarrow> decode bytes = Inr bytes) \<longrightarrow>
              fst (consume_iteration decode icl n c) = Continue
              \<and> since c (snd (consume_iteration decode icl n c)) =
                  [Log DEBUG ''Polling for messages...'',
                   PollMessages STREAM_NAME TOPIC_NAME PARTITION_ID Next n True,
                   Polled msgs]
                  @ map (\<lambda>(msg, m). handling_line (message_offset msg) (message_text m))
                      (zip msgs (map payload_of [current_id s + 1 .. current_id s + b]))
                  @ [Sleep interval]))
    \<and> (\<forall>send_fault lookup_fault ps cs.
         send_fault (sends (client ps)) = None
         \<and> client cs = (length (partition (client ps)),
                        client (snd (produce_iteration (memory_client send_fault lookup_fault) b ps)))
         \<and> (\<forall>bytes. is_ascii bytes \<longrightarrow> decode bytes = Inr bytes) \<longrightarrow>
           fst (consume_iteration decode memory_poller b cs) = Continue
           \<and> since cs (snd (consume_iteration decode memory_poller b cs)) =
               [Log DEBUG ''Polling for messages...'',
                PollMessages STREAM_NAME TOPIC_NAME PARTITION_ID Next b True,
                Polled (map (\<lambda>(i, m). \<lparr>message_offset = length (partition (client ps)) + i,
                                         message_payload = message_text m\<rparr>)
                          (zip [0..<nat b] (map payload_of [current_id ps + 1 .. current_id ps + b])))]
               @ map (\<lambda>(i, m). handling_line (length (partition (client ps)) + i) (message_text m))
                   (zip [0..<nat b] (map payload_of [current_id ps + 1 .. current_id ps + b]))
               @ [Sleep interval])"
proof -
  have ascii: "\<forall>m \<in> set (map payload_of ids). decode (message_text m) = Inr (message_text m)"
    if "\<forall>bytes. is_ascii bytes \<longrightarrow> decode bytes = Inr bytes" for decode :: "string \<Rightarrow> exn + string" and ids
    using that by (simp add: is_ascii_payload)
  from b have size: "length (map payload_of [i + 1 .. i + b]) = nat b" for i
    by simp
  with b have some: "map payload_of [i + 1 .. i + b] \<noteq> []" for i
    by (metis length_0_conv nat_0_iff not_less)
  have produced: "filter is_request (since s (snd (produce_iteration cl b s)))
       = [SendMessages STREAM_NAME TOPIC_NAME PARTITION_ID
            (map payload_of [current_id s + 1 .. current_id s + b])]"
  proof -
    obtain res c' where send: "send_messages cl STREAM_NAME TOPIC_NAME PARTITION_ID
        (map payload_of [current_id s + 1 .. current_id s + b]) (client s) = (res, c')"
      by (cases "send_messages cl STREAM_NAME TOPIC_NAME PARTITION_ID
        (map payload_of [current_id s + 1 .. current_id s + b]) (client s)")
    show ?thesis
    proof (cases res)
      case (Inr u)
      with send produce_iteration_sent [OF b, of cl s u c'] show ?thesis
        by (simp add: since_def)
    next
      case (Inl error)
      with send produce_iteration_failed [OF b, of cl s error c']
        produce_iteration_interrupted [OF b, of cl s error c']
      show ?thesis by (cases "is_Exception error") (simp_all add: since_def)
    qed
  qed
  have consumed: "since c (snd (consume_iteration decode icl n c)) =
             [Log DEBUG ''Polling for messages...'',
              PollMessages STREAM_NAME TOPIC_NAME PARTITION_ID Next n True,
              Polled msgs]
             @ map (handling_of decode) (takeWhile (decodes decode) msgs)
             @ (if list_all (decodes decode) msgs then [Sleep interval]
                else if is_Exception (decode_error decode msgs)
                then [Log ERROR (''Exception occurred while consuming messages: ''
                        @ message (decode_error decode msgs))]
                else [])
         \<and> fst (consume_iteration decode icl n c) =
             (if list_all (decodes decode) msgs then Continue
              else if is_Exception (decode_error decode msgs) then Break
              else Raise (decode_error decode msgs))"
    if poll: "poll_messages icl STREAM_NAME TOPIC_NAME PARTITION_ID Next n True (client c) = (Inr msgs, ic')"
      and nonempty: "msgs \<noteq> []" for msgs ic'
  proof (cases "list_all (decodes decode) msgs")
    case True
    with consume_iteration_handled [OF poll nonempty True] show ?thesis
      by (simp add: since_def takeWhile_all)
  next
    case False
    with consume_iteration_undecoded [OF poll False refl] show ?thesis
      by (simp add: since_def decode_error_def)
  qed
  have observed: "fst (consume_iteration decode icl n c) = Continue
              \<and> since c (snd (consume_iteration decode icl n c)) =
                  [Log DEBUG ''Polling for messages...'',
                   PollMessages STREAM_NAME TOPIC_NAME PARTITION_ID Next n True,
                   Polled msgs]
                  @ map (\<lambda>(msg, m). handling_line (message_offset msg) (message_text m))
                      (zip msgs (map payload_of [current_id s + 1 .. current_id s + b]))
                  @ [Sleep interval]"
    if poll: "poll_messages icl STREAM_NAME TOPIC_NAME PARTITION_ID Next n True (client c) = (Inr msgs, ic')"
      and returned: "map message_payload msgs
                = map message_text (map payload_of [current_id s + 1 .. current_id s + b])"
      and decoder: "\<forall>bytes. is_ascii bytes \<longrightarrow> decode bytes = Inr bytes" for msgs ic'
    using consume_iteration_batch [OF poll returned some ascii [OF decoder]]
    by (simp add: since_def)
  have stored: "fst (consume_iteration decode memory_poller b cs) = Continue
           \<and> since cs (snd (consume_iteration decode memory_poller b cs)) =
               [Log DEBUG ''Polling for messages...'',
                PollMessages STREAM_NAME TOPIC_NAME PARTITION_ID Next b True,
                Polled (map (\<lambda>(i, m). \<lparr>message_offset = length (partition (client ps)) + i,
                                         message_payload = message_text m\<rparr>)
                          (zip [0..<nat b] (map payload_of [current_id ps + 1 .. current_id ps + b])))]
               @ map (\<lambda>(i, m). handling_line (length (partition (client ps)) + i) (message_text m))
                   (zip [0..<nat b] (map payload_of [current_id ps + 1 .. current_id ps + b]))
               @ [Sleep interval]"
    if accepted: "send_fault (sends (client ps)) = None"
      and cursor: "client cs = (length (partition (client ps)),
                        client (snd (produce_iteration (memory_client send_fault lookup_fault) b ps)))"
      and decoder: "\<forall>bytes. is_ascii bytes \<longrightarrow> decode bytes = Inr bytes"
    for send_fault lookup_fault and ps :: "broker producer" and cs :: "(nat \<times> broker) consumer"
  proof -
    let ?batch = "map payload_of [current_id ps + 1 .. current_id ps + b]"
    let ?polled = "map (\<lambda>(i, m). \<lparr>message_offset = length (partition (client ps)) + i,
                                         message_payload = message_text m\<rparr>)
                          (zip [0..<length ?batch] ?batch)"
    from accepted have "send_messages (memory_client send_fault lookup_fault)
        STREAM_NAME TOPIC_NAME PARTITION_ID ?batch (client ps)
        = (Inr (), (client ps)\<lparr>partition := partition (client ps) @ ?batch,
             sends := Suc (sends (client ps))\<rparr>)"
      by (rule memory_client_send)
    from produce_iteration_sent [OF b this]
    have "partition (client (snd (produce_iteration (memory_client send_fault lookup_fault) b ps)))
        = partition (client ps) @ ?batch"
      by simp
    moreover from b have "int (length ?batch) = b" by simp
    ultimately have poll: "poll_messages memory_poller STREAM_NAME TOPIC_NAME PARTITION_ID Next b True
        (client cs) = (Inr ?polled, (length (partition (client ps)) + length ?batch,
           client (snd (produce_iteration (memory_client send_fault lookup_fault) b ps))))"
      by (simp only: cursor memory_poller_poll)
    have returned: "map message_payload ?polled = map message_text ?batch"
      by (rule memory_poller_payloads)
    from consume_iteration_batch [OF poll returned some ascii [OF decoder]]
    have "fst (consume_iteration decode memory_poller b cs) = Continue
      \<and> since cs (snd (consume_iteration decode memory_poller b cs)) =
          [Log DEBUG ''Polling for messages...'',
           PollMessages STREAM_NAME TOPIC_NAME PARTITION_ID Next b True,
           Polled ?polled]
          @ map (\<lambda>(i, m). handling_line (length (partition (client ps)) + i) (message_text m))
              (zip [0..<length ?batch] ?batch)
          @ [Sleep interval]"
      by (simp only: memory_poller_lines) (simp add: since_def)
    then show ?thesis by (simp only: size)
  qed
  from produced consumed observed stored show ?thesis by blast
qed

text \<open>
  The theorem at an iteration of the producer on the in-memory broker, empty at the
  start, with \<open>b = 2\<close>, and an iteration of the consumer that polls the broker from the
  start of its partition.
\<close>

theorem batch_order_kept_witness:
  "(0::int) < 2
   \<and> filter is_request (since (producer_start empty_broker)
        (snd (produce_iteration (memory_client no_fault None) 2 (producer_start empty_broker))))
       = [SendMessages ''sample-stream'' ''sample-topic'' 1
            [Message ''message-1'', Message ''message-2'']]
   \<and> no_fault (sends (client (producer_start empty_broker))) = None
   \<and> poll_messages memory_poller STREAM_NAME TOPIC_NAME PARTITION_ID Next 2 True
       (0, client (snd (produce_iteration (memory_client no_fault None) 2 (producer_start empty_broker))))
       = (Inr [\<lparr>message_offset = 0, message_payload = ''message-1''\<rparr>,
               \<lparr>message_offset = 1, message_payload = ''message-2''\<rparr>],
          (2, \<lparr>streams = [], topics = [],
               partition = [Message ''message-1'', Message ''message-2''], sends = 1\<rparr>))
   \<and> map message_payload [\<lparr>message_offset = 0, message_payload = ''message-1''\<rparr>,
                           \<lparr>message_offset = 1, message_payload = ''message-2''\<rparr>]
       = map message_text (map payload_of [current_id (producer_start empty_broker) + 1 ..
                                           current_id (producer_start empty_broker) + 2])
   \<and> decode_ascii ''message-1'' = Inr ''message-1''
   \<and> fst (consume_iteration decode_ascii memory_poller 2
        (consumer_start \<lparr>client = (0, client (snd (produce_iteration (memory_client no_fault None) 2
                                                   (producer_start empty_broker)))),
                         trace = []\<rparr>)) = Continue
   \<and> since (consumer_start \<lparr>client = (0, client (snd (produce_iteration (memory_client no_fault None) 2
                                                   (producer_start empty_broker)))),
                         trace = []\<rparr>)
        (snd (consume_iteration decode_ascii memory_poller 2
           (consumer_start \<lparr>client = (0, client (snd (produce_iteration (memory_client no_fault None) 2
                                                   (producer_start empty_broker)))),
                            trace = []\<rparr>)))
       = [Log DEBUG ''Polling for messages...'',
          PollMessages ''sample-stream'' ''sample-topic'' 1 Next 2 True,
          Polled [\<lparr>message_offset = 0, message_payload = ''message-1''\<rparr>,
                  \<lparr>message_offset = 1, message_payload = ''message-2''\<rparr>],
          Log INFO ''Handling message at offset: 0 with payload: message-1...'',
          Log INFO ''Handling message at offset: 1 with payload: message-2...'',
          Sleep (1 / 2)]"
proof -
  let ?ps = "producer_start empty_broker"
  let ?cl = "memory_client no_fault None"
  let ?cs = "consumer_start \<lparr>client = (0, client (snd (produce_iteration ?cl 2 ?ps))), trace = []\<rparr>"
  let ?msgs = "[\<lparr>message_offset = 0, message_payload = ''message-1''\<rparr>,
                \<lparr>message_offset = 1, message_payload = ''message-2''\<rparr>]"
  have b: "(0::int) < 2" by simp
  have accepted: "no_fault (sends (client ?ps)) = None" by (simp add: no_fault_def)
  have ids: "map payload_of [1 .. 2] = [Message ''message-1'', Message ''message-2'']"
    by (simp add: payload_of_def str_defs upto.simps)
  have poll: "poll_messages memory_poller STREAM_NAME TOPIC_NAME PARTITION_ID Next 2 True
       (0, client (snd (produce_iteration ?cl 2 ?ps)))
       = (Inr ?msgs, (2, \<lparr>streams = [], topics = [],
               partition = [Message ''message-1'', Message ''message-2''], sends = 1\<rparr>))"
    by (simp add: producer_defs double_defs step_defs config_defs str_defs memory_poller_def Let_def)
  have returned: "map message_payload ?msgs
       = map message_text (map payload_of [current_id ?ps + 1 .. current_id ?ps + 2])"
    by (simp add: producer_start_simps ids)
  have decoder: "\<forall>bytes. is_ascii bytes \<longrightarrow> decode_ascii bytes = Inr bytes"
    by (simp add: decode_ascii_def)
  then have one: "decode_ascii ''message-1'' = Inr ''message-1''"
    by (simp add: is_ascii_def)
  have cursor: "client ?cs = (length (partition (client ?ps)), client (snd (produce_iteration ?cl 2 ?ps)))"
    by (simp add: consumer_start_simps producer_start_simps empty_broker_def)
  note inst = batch_order_kept [OF b, of ?ps ?cl memory_poller 2 ?cs decode_ascii]
  from inst have sent: "filter is_request (since ?ps (snd (produce_iteration ?cl 2 ?ps)))
       = [SendMessages ''sample-stream'' ''sample-topic'' 1
            [Message ''message-1'', Message ''message-2'']]"
    by (simp add: producer_start_simps ids config_defs)
  from inst accepted cursor decoder
  have "fst (consume_iteration decode_ascii memory_poller 2 ?cs) = Continue
      \<and> since ?cs (snd (consume_iteration decode_ascii memory_poller 2 ?cs)) =
               [Log DEBUG ''Polling for messages...'',
                PollMessages STREAM_NAME TOPIC_NAME PARTITION_ID Next 2 True,
                Polled (map (\<lambda>(i, m). \<lparr>message_offset = length (partition (client ?ps)) + i,
                                         message_payload = message_text m\<rparr>)
                          (zip [0..<nat 2] (map payload_of [current_id ?ps + 1 .. current_id ?ps + 2])))]
               @ map (\<lambda>(i, m). handling_line (length (partition (client ?ps)) + i) (message_text m))
                   (zip [0..<nat 2] (map payload_of [current_id ?ps + 1 .. current_id ?ps + 2]))
               @ [Sleep interval]"
    by blast
  then have seen: "fst (consume_iteration decode_ascii memory_poller 2 ?cs) = Continue"
    "since ?cs (snd (consume_iteration decode_ascii memory_poller 2 ?cs))
       = [Log DEBUG ''Polling for messages...'',
          PollMessages ''sample-stream'' ''sample-topic'' 1 Next 2 True,
          Polled ?msgs,
          Log INFO ''Handling message at offset: 0 with payload: message-1...'',
          Log INFO ''Handling message at offset: 1 with payload: message-2...'',
          Sleep (1 / 2)]"
    by (simp_all add: producer_start_simps empty_broker_def ids config_defs handling_line_def
          str_defs eval_nat_numeral upt_rec)
  from b sent accepted poll returned one seen show ?thesis by blast
qed

text \<open>
  Against the claim as it stands: a poll returns three messages, the second of them with
  a payload that is no UTF-8 text. The first message is handled, the third never is:
  one error is logged and the run ends with no batch counted, the offset moved past all
  three.
\<close>

theorem batch_order_counterexample:
  "map_option (lines INFO \<circ> trace \<circ> snd)
     (consume_messages decode_ascii scripted_client 10 1 (script
        [Inr [\<lparr>message_offset = 0, message_payload = ''message-1''\<rparr>,
              \<lparr>message_offset = 1, message_payload = [CHR 0xFF]\<rparr>,
              \<lparr>message_offset = 2, message_payload = ''message-3''\<rparr>]]))
     = Some [''Messages will be consumed from stream: sample-stream, topic: sample-topic, partition: 1 with interval 500.0 ms.'',
             ''Handling message at offset: 0 with payload: message-1...'',
             ''Consumed 0 batches of messages, exiting.'']
   \<and> map_option (length \<circ> lines ERROR \<circ> trace \<circ> snd)
     (consume_messages decode_ascii scripted_client 10 1 (script
        [Inr [\<lparr>message_offset = 0, message_payload = ''message-1''\<rparr>,
              \<lparr>message_offset = 1, message_payload = [CHR 0xFF]\<rparr>,
              \<lparr>message_offset = 2, message_payload = ''message-3''\<rparr>]]))
     = Some 1
   \<and> map_option (offset \<circ> snd)
     (consume_messages decode_ascii scripted_client 10 1 (script
        [Inr [\<lparr>message_offset = 0, message_payload = ''message-1''\<rparr>,
              \<lparr>message_offset = 1, message_payload = [CHR 0xFF]\<rparr>,
              \<lparr>message_offset = 2, message_payload = ''message-3''\<rparr>]]))
     = Some 3"
  by (simp add: consumer_defs step_defs config_defs str_defs)

subsection \<open>C9: pacing\<close>

text \<open>
  C9, as amended. The claim has a pause after every iteration of both loops, failed
  ones too. The producer sleeps after every iteration that its handler ends, and the
  consumer after every poll that returns, empty or not; but a consumer iteration that
  fails leaves the loop by \<open>break\<close> without a sleep. What holds for both programs:
  at every loop head the last request, if any, has been followed by a sleep of the
  configured interval, and in the trace of every run that returns, any two requests have
  such a sleep between them.
\<close>

theorem pause_between_requests:
  assumes pw: "pacing False (trace w) = Some False"
    and pv: "pacing False (trace v) = Some False"
  shows "(produce_steps k cl b limit (producer_start w) = Some ps \<longrightarrow>
            pacing False (trace ps) = Some False)
    \<and> (produce_messages cl b limit w = Some (pr, pfinal) \<longrightarrow>
            pacing False (trace pfinal) \<noteq> None)
    \<and> (consume_steps j decode icl n bound (consumer_start v) = Some cs \<longrightarrow>
            pacing False (trace cs) = Some False)
    \<and> (consume_messages decode icl n bound v = Some (cr, cfinal) \<longrightarrow>
            pacing False (trace cfinal) \<noteq> None)
    \<and> (poll_messages icl STREAM_NAME TOPIC_NAME PARTITION_ID Next n True (client s) = (Inl error, c')
          \<and> is_Exception error \<longrightarrow>
            fst (consume_iteration decode icl n s) = Break
            \<and> Sleep interval \<notin> set (since s (snd (consume_iteration decode icl n s))))"
proof (intro conjI impI)
  assume "produce_steps k cl b limit (producer_start w) = Some ps"
  from produce_steps_pacing [OF this] pw show "pacing False (trace ps) = Some False"
    by (simp add: producer_start_simps)
next
  assume "produce_messages cl b limit w = Some (pr, pfinal)"
  from produce_messages_pacing [OF this] obtain s' where
    loop: "produce_while cl b limit (producer_start w) = Some (pr, s')"
    and same: "pacing False (trace pfinal) = pacing False (trace s')" by blast
  from produce_while_returns [OF loop] obtain i s'' where
    steps: "produce_steps i cl b limit (producer_start w) = Some s''"
    and fin: "s' = s'' \<or> (\<exists>error. produce_iteration cl b s'' = (Inl error, s'))" by blast
  from produce_steps_pacing [OF steps] pw have head: "pacing False (trace s'') = Some False"
    by (simp add: producer_start_simps)
  from fin have "pacing False (trace s') \<noteq> None"
  proof
    assume "s' = s''"
    with head show ?thesis by simp
  next
    assume "\<exists>error. produce_iteration cl b s'' = (Inl error, s')"
    then obtain error where "produce_iteration cl b s'' = (Inl error, s')" by blast
    from produce_iteration_pacing [OF this] head show ?thesis
      by (auto simp: pacing_append)
  qed
  with same show "pacing False (trace pfinal) \<noteq> None" by simp
next
  assume "consume_steps j decode icl n bound (consumer_start v) = Some cs"
  from consume_steps_state [OF this] pv show "pacing False (trace cs) = Some False"
    by (simp add: consumer_start_simps)
next
  assume "consume_messages decode icl n bound v = Some (cr, cfinal)"
  from consume_messages_pacing [OF this] obtain s' where
    loop: "consume_while decode icl n bound (consumer_start v) = Some (cr, s')"
    and same: "pacing False (trace cfinal) = pacing False (trace s')" by blast
  from consume_while_returns [OF loop] obtain i s'' where
    steps: "consume_steps i decode icl n bound (consumer_start v) = Some s''"
    and fin: "s' = s'' \<or> (\<exists>fl. consume_iteration decode icl n s'' = (fl, s'))" by blast
  from consume_steps_state [OF steps] pv have head: "pacing False (trace s'') = Some False"
    by (simp add: consumer_start_simps)
  from fin have "pacing False (trace s') \<noteq> None"
  proof
    assume "s' = s''"
    with head show ?thesis by simp
  next
    assume "\<exists>fl. consume_iteration decode icl n s'' = (fl, s')"
    then obtain fl where it: "consume_iteration decode icl n s'' = (fl, s')" by blast
    obtain res c'' where poll: "poll_messages icl STREAM_NAME TOPIC_NAME PARTITION_ID Next n True (client s'') = (res, c'')"
      by (cases "poll_messages icl STREAM_NAME TOPIC_NAME PARTITION_ID Next n True (client s'')")
    from consume_iteration_any [OF poll it] head show ?thesis
      by (auto simp: pacing_append)
  qed
  with same show "pacing False (trace cfinal) \<noteq> None" by simp
next
  assume f: "poll_messages icl STREAM_NAME TOPIC_NAME PARTITION_ID Next n True (client s) = (Inl error, c')
          \<and> is_Exception error"
  then have "consume_iteration decode icl n s =
    (Break, s\<lparr>client := c',
       trace := trace s @
         [Log DEBUG ''Polling for messages...'',
          PollMessages STREAM_NAME TOPIC_NAME PARTITION_ID Next n True,
          Raised error,
          Log ERROR (''Exception occurred while consuming messages: '' @ message error)]\<rparr>)"
    by (intro consume_iteration_raised) simp_all
  then show "fst (consume_iteration decode icl n s) = Break"
    and "Sleep interval \<notin> set (since s (snd (consume_iteration decode icl n s)))"
    by (simp_all add: since_def)
qed

text \<open>
  The theorem at a producer whose first send fails, a consumer whose first poll finds
  nothing and whose second finds a message, and a consumer whose first poll fails.
\<close>

theorem pause_between_requests_witness:
  "pacing False (trace empty_broker) = Some False
   \<and> pacing False (trace (script
        [Inr [], Inr [\<lparr>message_offset = 0, message_payload = ''message-1''\<rparr>]])) = Some False
   \<and> (\<exists>ps. produce_steps 1 (memory_client first_send_fails None) 1 1 (producer_start empty_broker)
          = Some ps
        \<and> raised (trace ps) = [Exn ''ConnectionError'' ''connection reset'']
        \<and> pacing False (trace ps) = Some False)
   \<and> (\<exists>pfinal. produce_messages (memory_client first_send_fails None) 1 1 empty_broker
          = Some (Inr (), pfinal)
        \<and> pacing False (trace pfinal) \<noteq> None)
   \<and> (\<exists>cs. consume_steps 1 decode_ascii scripted_client 10 1 (consumer_start (script
          [Inr [], Inr [\<lparr>message_offset = 0, message_payload = ''message-1''\<rparr>]])) = Some cs
        \<and> pacing False (trace cs) = Some False)
   \<and> (\<exists>cfinal. consume_messages decode_ascii scripted_client 10 1 (script
          [Inr [], Inr [\<lparr>message_offset = 0, message_payload = ''message-1''\<rparr>]])
          = Some (Inr (), cfinal)
        \<and> pacing False (trace cfinal) \<noteq> None)
   \<and> poll_messages scripted_client STREAM_NAME TOPIC_NAME PARTITION_ID Next 10 True
        (client (consumer_start (script [Inl (Exn ''ConnectionError'' ''connection reset'')])))
        = (Inl (Exn ''ConnectionError'' ''connection reset''), [])
   \<and> is_Exception (Exn ''ConnectionError'' ''connection reset'')
   \<and> fst (consume_iteration decode_ascii scripted_client 10
        (consumer_start (script [Inl (Exn ''ConnectionError'' ''connection reset'')]))) = Break
   \<and> Sleep interval \<notin> set (since
        (consumer_start (script [Inl (Exn ''ConnectionError'' ''connection reset'')]))
        (snd (consume_iteration decode_ascii scripted_client 10
           (consumer_start (script [Inl (Exn ''ConnectionError'' ''connection reset'')])))))"
proof -
  let ?cl = "memory_client first_send_fails None"
  let ?v = "script [Inr [], Inr [\<lparr>message_offset = 0, message_payload = ''message-1''\<rparr>]]"
  let ?f = "consumer_start (script [Inl (Exn ''ConnectionError'' ''connection reset'')])"
  have pw: "pacing False (trace empty_broker) = Some False"
    by (simp add: empty_broker_def)
  have pv: "pacing False (trace ?v) = Some False"
    by (simp add: script_def)
  have "\<exists>ps. produce_steps 1 ?cl 1 1 (producer_start empty_broker) = Some ps
      \<and> raised (trace ps) = [Exn ''ConnectionError'' ''connection reset'']"
    by (simp add: producer_defs double_defs step_defs config_defs str_defs)
  then obtain ps where ps: "produce_steps 1 ?cl 1 1 (producer_start empty_broker) = Some ps"
    and failed: "raised (trace ps) = [Exn ''ConnectionError'' ''connection reset'']" by blast
  have "\<exists>pfinal. produce_messages ?cl 1 1 empty_broker = Some (Inr (), pfinal)"
    by (simp add: producer_defs double_defs step_defs config_defs str_defs)
  then obtain pfinal where pfinal: "produce_messages ?cl 1 1 empty_broker = Some (Inr (), pfinal)"
    by blast
  have "\<exists>cs. consume_steps 1 decode_ascii scripted_client 10 1 (consumer_start ?v) = Some cs"
    by (simp add: consumer_defs step_defs config_defs str_defs)
  then obtain cs where cs: "consume_steps 1 decode_ascii scripted_client 10 1 (consumer_start ?v) = Some cs"
    by blast
  have "\<exists>cfinal. consume_messages decode_ascii scripted_client 10 1 ?v = Some (Inr (), cfinal)"
    by (simp add: consumer_defs step_defs config_defs str_defs)
  then obtain cfinal where cfinal: "consume_messages decode_ascii scripted_client 10 1 ?v = Some (Inr (), cfinal)"
    by blast
  have poll: "poll_messages scripted_client STREAM_NAME TOPIC_NAME PARTITION_ID Next 10 True
        (client ?f) = (Inl (Exn ''ConnectionError'' ''connection reset''), [])"
    by (simp add: consumer_start_simps scripted_client_def script_def)
  have exn: "is_Exception (Exn ''ConnectionError'' ''connection reset'')" by simp
  from pause_between_requests [OF pw pv, of 1 ?cl 1 1 ps "Inr ()" pfinal 1 decode_ascii
      scripted_client 10 1 cs "Inr ()" cfinal ?f "Exn ''ConnectionError'' ''connection reset''" "[]"]
    ps pfinal cs cfinal poll exn
  have "pacing False (trace ps) = Some False"
    and "pacing False (trace pfinal) \<noteq> None"
    and "pacing False (trace cs) = Some False"
    and "pacing False (trace cfinal) \<noteq> None"
    and "fst (consume_iteration decode_ascii scripted_client 10 ?f) = Break"
    and "Sleep interval \<notin> set (since ?f (snd (consume_iteration decode_ascii scripted_client 10 ?f)))"
    by blast+
  with pw pv ps failed pfinal cs cfinal poll exn show ?thesis by blast
qed

text \<open>
  C9 as stated fails: a consumer whose first poll raises logs the error and leaves the
  loop; there is no sleep after the failed iteration.
\<close>

theorem pause_counterexample:
  "map_option (trace \<circ> snd)
     (consume_messages decode_ascii scripted_client 10 BATCHES_LIMIT
        (script [Inl (Exn ''ConnectionError'' ''connection reset'')]))
   = Some
      [Log INFO ''Messages will be consumed from stream: sample-stream, topic: sample-topic, partition: 1 with interval 500.0 ms.'',
       Log DEBUG ''Polling for messages...'',
       PollMessages ''sample-stream'' ''sample-topic'' 1 Next 10 True,
       Raised (Exn ''ConnectionError'' ''connection reset''),
       Log ERROR ''Exception occurred while consuming messages: connection reset'',
       Log INFO ''Consumed 0 batches of messages, exiting.'']"
  by (simp add: consumer_defs step_defs config_defs str_defs BATCHES_LIMIT_def)

subsection \<open>C10: identifiers are used once\<close>

text \<open>
  C10. After every iteration of the producer's loop, however its send ended,
  \<open>current_id\<close> is the batch size times the number of send calls made so far; the
  \<open>k\<close>-th call carried the identifiers \<open>(k-1)*b+1 .. k*b\<close>, so the calls made so far
  carry pairwise different payloads, each payload in one call only: the identifiers of
  a failed batch are not used again.
\<close>

theorem identifiers_used_once:
  assumes "0 < b"
    and "produce_steps k cl b limit (producer_start w) = Some s"
  shows "current_id s = b * int k
    \<and> length (sent_batches (trace s)) = length (sent_batches (trace w)) + k
    \<and> sent_batches (trace s) = sent_batches (trace w) @ map (expected_batch b) [1 .. int k]
    \<and> concat (map (expected_batch b) [1 .. int k]) = map payload_of [1 .. int k * b]
    \<and> distinct (concat (map (expected_batch b) [1 .. int k]))"
proof -
  note st = produce_steps_state [OF assms, unfolded producer_start_simps, simplified]
  from st have sent: "sent_batches (trace s) = sent_batches (trace w) @ map (expected_batch b) [1 .. int k]"
    by (simp add: expected_batches_eq)
  then have "length (sent_batches (trace s)) = length (sent_batches (trace w)) + k" by simp
  moreover note all = concat_expected_batches [OF assms(1), of "int k"]
  moreover from all have "distinct (concat (map (expected_batch b) [1 .. int k]))"
    by (simp only: distinct_payloads)
  ultimately show ?thesis using st sent by simp
qed

text \<open>The theorem after two iterations, the first of them with a failed send.\<close>

theorem identifiers_used_once_witness:
  "(0::int) < 2
   \<and> (\<exists>s. produce_steps 2 (memory_client first_send_fails None) 2 1 (producer_start empty_broker) = Some s
        \<and> current_id s = 4
        \<and> raised (trace s) = [Exn ''ConnectionError'' ''connection reset'']
        \<and> sent_batches (trace s)
            = [[Message ''message-1'', Message ''message-2''],
               [Message ''message-3'', Message ''message-4'']]
        \<and> distinct [Message ''message-1'', Message ''message-2'',
                     Message ''message-3'', Message ''message-4''])"
proof -
  have b: "(0::int) < 2" by simp
  have "\<exists>s. produce_steps 2 (memory_client first_send_fails None) 2 1 (producer_start empty_broker) = Some s
      \<and> raised (trace s) = [Exn ''ConnectionError'' ''connection reset'']"
    by (simp add: producer_defs double_defs step_defs config_defs str_defs)
  then obtain s where
    steps: "produce_steps 2 (memory_client first_send_fails None) 2 1 (producer_start empty_broker) = Some s"
    and r: "raised (trace s) = [Exn ''ConnectionError'' ''connection reset'']" by blast
  have batches: "map (expected_batch 2) [1 .. 2]
      = [[Message ''message-1'', Message ''message-2''],
         [Message ''message-3'', Message ''message-4'']]"
    by (simp add: expected_batch_def payload_of_def str_defs upto.simps)
  have quiet: "sent_batches (trace empty_broker) = []"
    by (simp add: empty_broker_def)
  have idx: "int 2 = 2" by simp
  from identifiers_used_once [OF b steps]
  have cid: "current_id s = 2 * int 2"
    and sent: "sent_batches (trace s) = sent_batches (trace empty_broker) @ map (expected_batch 2) [1 .. int 2]"
    and dist: "distinct (concat (map (expected_batch 2) [1 .. int 2]))"
    by blast+
  from cid have "current_id s = 4" by simp
  moreover from sent have "sent_batches (trace s)
            = [[Message ''message-1'', Message ''message-2''],
               [Message ''message-3'', Message ''message-4'']]"
    by (simp only: idx batches quiet append_Nil)
  moreover from dist have "distinct [Message ''message-1'', Message ''message-2'',
                     Message ''message-3'', Message ''message-4'']"
    by (simp only: idx batches concat.simps append_Cons append_Nil)
  ultimately have "current_id s = 4
        \<and> sent_batches (trace s)
            = [[Message ''message-1'', Message ''message-2''],
               [Message ''message-3'', Message ''message-4'']]
        \<and> distinct [Message ''message-1'', Message ''message-2'',
                     Message ''message-3'', Message ''message-4'']"
    by blast
  with b steps r show ?thesis by blast
qed

end
